theory Spec2Isabelle
  imports Main "HOL-Library.Word" "HOL-Library.Signed_Division"
begin

unbundle bit_operations_syntax

section \<open>Bytes, slices and the little-endian codec\<close>

text \<open>
  The client is written in Go. A \<open>[]byte\<close> is a list of 8-bit words, \<open>uint16\<close> and
  \<open>uint32\<close> are 16- and 32-bit words. Go's \<open>nil\<close> slice and the empty slice are both
  the empty list: the code only ever takes their length or appends to them.
\<close>

type_synonym byte = "8 word"
type_synonym uint16 = "16 word"
type_synonym uint32 = "32 word"

text \<open>The slice expression \<open>xs[lo:hi]\<close>; every use in the model is guarded by the
  length check the source performs before it.\<close>

definition subslice :: "'a list \<Rightarrow> nat \<Rightarrow> nat \<Rightarrow> 'a list" where
  "subslice xs lo hi = take (hi - lo) (drop lo xs)"

text \<open>\<open>binary.LittleEndian.Uint16(b)\<close> is \<open>uint16(b[0]) | uint16(b[1])<<8\<close>, and
  \<open>Uint32\<close> likewise on four bytes.\<close>

definition Uint16 :: "byte list \<Rightarrow> uint16" where
  "Uint16 b = ucast (b ! 0) OR push_bit 8 (ucast (b ! 1))"

definition Uint32 :: "byte list \<Rightarrow> uint32" where
  "Uint32 b = ucast (b ! 0) OR push_bit 8 (ucast (b ! 1))
                OR push_bit 16 (ucast (b ! 2)) OR push_bit 24 (ucast (b ! 3))"

text \<open>\<open>binary.LittleEndian.PutUint16(buf[off:off+2], v)\<close> writes \<open>byte(v)\<close> and
  \<open>byte(v >> 8)\<close> in place; \<open>PutUint32\<close> writes four bytes.\<close>

definition PutUint16 :: "byte list \<Rightarrow> nat \<Rightarrow> uint16 \<Rightarrow> byte list" where
  "PutUint16 buf off v = buf[off := ucast v, off + 1 := ucast (drop_bit 8 v)]"

definition PutUint32 :: "byte list \<Rightarrow> nat \<Rightarrow> uint32 \<Rightarrow> byte list" where
  "PutUint32 buf off v =
     buf[off := ucast v, off + 1 := ucast (drop_bit 8 v),
         off + 2 := ucast (drop_bit 16 v), off + 3 := ucast (drop_bit 24 v)]"

text \<open>The builtin \<open>copy(dst[off:], src)\<close>: it copies as many bytes as fit.\<close>

definition copy_at :: "'a list \<Rightarrow> nat \<Rightarrow> 'a list \<Rightarrow> 'a list" where
  "copy_at dst off src =
     take off dst @ take (length dst - off) src @ drop (off + length src) dst"

text \<open>\<open>const ushrtMax = 65535\<close> is an untyped constant: it takes the type of the
  expression it stands in (\<open>int64\<close> in the checksum, \<open>uint16\<close> in the reply counter).\<close>

abbreviation ushrtMax :: "'a::numeral" where
  "ushrtMax \<equiv> 65535"

definition tcpMagic :: "byte list" where
  "tcpMagic = [0x50, 0x50, 0x82, 0x7D]"

section \<open>Packets\<close>

record packet =
  Command :: uint16
  Checksum :: uint16
  SessionID :: uint16
  ReplyID :: uint16
  Data :: "byte list"

text \<open>Errors of the protocol engine, one constructor for each \<open>fmt.Errorf\<close> of the
  source and one for each kind of socket error; a wrapped error (\<open>%w\<close>) keeps the
  error it wraps. \<open>NilDereference\<close> is the panic of a method call on a \<open>nil\<close>
  connection.\<close>

datatype io_error = Timeout | EOF | IOFailure

datatype error =
    PacketTooShort nat
  | NotConnected
  | IOErr io_error
  | SessionMismatch uint16 uint16
  | PrepareTooShort nat
  | ReceiveChunk error
  | ReceiveFinalAck error
  | MaxAttempts
  | UnexpectedResponse uint16
  | RegisterEvents error
  | ParseRegEvent error
  | RegisterEventsResponse uint16
  | ReceiveEvent error
  | NilDereference

definition parsePacket :: "byte list \<Rightarrow> error + packet" where
  "parsePacket data =
     (if length data < 8 then Inl (PacketTooShort (length data))
      else Inr \<lparr> Command = Uint16 (subslice data 0 2),
                 Checksum = Uint16 (subslice data 2 4),
                 SessionID = Uint16 (subslice data 4 6),
                 ReplyID = Uint16 (subslice data 6 8),
                 Data = (if length data > 8 then drop 8 data else []) \<rparr>)"

section \<open>Checksum\<close>

text \<open>
  \<open>calculateChecksum\<close> keeps its running sum in an \<open>int64\<close>; the sum never leaves
  \<open>[-65536, 131070]\<close>, so it is an \<open>int\<close> here. The three loops of the source are
  \<open>sumWords\<close> (the \<open>for i := 0; i < length-1; i += 2\<close> loop, with \<open>length-1\<close>
  computed on integers as in Go), \<open>foldCarry\<close> and \<open>raiseNegative\<close>.
\<close>

function sumWords :: "byte list \<Rightarrow> nat \<Rightarrow> int \<Rightarrow> int" where
  "sumWords data i chksum =
     (if int i < int (length data) - 1 then
        let val = uint (Uint16 (subslice data i (i + 2)));
            chksum = chksum + val;
            chksum = (if chksum > ushrtMax then chksum - ushrtMax else chksum)
        in sumWords data (i + 2) chksum
      else chksum)"
  by pat_completeness auto
termination
  by (relation "measure (\<lambda>(data, i, chksum). length data - i)") auto

declare sumWords.simps [simp del]

function foldCarry :: "int \<Rightarrow> int" where
  "foldCarry chksum = (if chksum > ushrtMax then foldCarry (chksum - ushrtMax) else chksum)"
  by pat_completeness auto
termination
  by (relation "measure nat") auto

declare foldCarry.simps [simp del]

function raiseNegative :: "int \<Rightarrow> int" where
  "raiseNegative chksum = (if chksum < 0 then raiseNegative (chksum + ushrtMax) else chksum)"
  by pat_completeness auto
termination
  by (relation "measure (\<lambda>c. nat (- c))") auto

declare raiseNegative.simps [simp del]

definition calculateChecksum :: "byte list \<Rightarrow> uint16" where
  "calculateChecksum data =
     (let chksum = sumWords data 0 0;
          chksum = (if length data mod 2 \<noteq> 0
                    then chksum + uint (data ! (length data - 1)) else chksum);
          chksum = foldCarry chksum;
          chksum = (if chksum > 0 then - chksum else chksum);
          chksum = chksum - 1;
          chksum = raiseNegative chksum
      in word_of_int chksum)"

subsection \<open>The checksum as the specification words it\<close>

text \<open>
  The reference of the specification, written independently of the code: the
  16-bit little-endian words of the input, summed with every carry above 65535 folded
  back by subtracting 65535; a trailing odd byte added directly; the sum negated and
  decremented; 65535 added until the value is non-negative.
\<close>

fun leWords :: "byte list \<Rightarrow> int list" where
  "leWords (lo # hi # rest) = (uint lo + 256 * uint hi) # leWords rest"
| "leWords rest = []"

definition addFolded :: "int \<Rightarrow> int \<Rightarrow> int" where
  "addFolded acc w = (if acc + w > 65535 then acc + w - 65535 else acc + w)"

function addUntilNonNegative :: "int \<Rightarrow> int" where
  "addUntilNonNegative x = (if x < 0 then addUntilNonNegative (x + 65535) else x)"
  by pat_completeness auto
termination
  by (relation "measure (\<lambda>x. nat (- x))") auto

declare addUntilNonNegative.simps [simp del]

definition referenceChecksum :: "byte list \<Rightarrow> int" where
  "referenceChecksum bs =
     addUntilNonNegative
       (- (foldl addFolded 0 (leWords bs) + (if odd (length bs) then uint (last bs) else 0)) - 1)"

subsection \<open>The checksum computes the reference\<close>

lemma uint_Uint16_pair: "uint (Uint16 [a, b]) = uint a + 256 * uint b"
proof -
  have "(ucast a :: uint16) OR push_bit 8 (ucast b) = ucast a + push_bit 8 (ucast b)"
    by (rule disjunctive_add [symmetric]) (auto simp: bit_simps dest: bit_imp_le_length)
  moreover have "uint (ucast a + push_bit 8 (ucast b) :: uint16) = uint a + 256 * uint b"
  proof -
    have a: "uint a < 256" using uint_bounded [of a] by simp
    have b: "uint b < 256" using uint_bounded [of b] by simp
    have "0 \<le> uint a" "0 \<le> uint b" by simp_all
    then show ?thesis using a b
      by (simp add: uint_word_ariths push_bit_eq_mult uint_up_ucast is_up)
  qed
  ultimately show ?thesis by (simp add: Uint16_def)
qed

lemma drop_pair:
  assumes "Suc i < length data"
  shows "drop i data = data ! i # data ! Suc i # drop (Suc (Suc i)) data"
  using assms by (metis Cons_nth_drop_Suc Suc_lessD)

lemma subslice_pair:
  assumes "Suc i < length data"
  shows "subslice data i (Suc (Suc i)) = [data ! i, data ! Suc i]"
  using drop_pair [OF assms] by (simp add: subslice_def)

lemma leWords_short: "length xs < 2 \<Longrightarrow> leWords xs = []"
  by (cases xs rule: leWords.cases) auto

lemma sumWords_foldl:
  "sumWords data i chksum = foldl addFolded chksum (leWords (drop i data))"
proof (induction data i chksum rule: sumWords.induct)
  case (1 data i chksum)
  show ?case
  proof (cases "int i < int (length data) - 1")
    case True
    then have lt: "Suc i < length data" by linarith
    define v where "v = uint (Uint16 (subslice data i (i + 2)))"
    have d: "drop i data = data ! i # data ! Suc i # drop (i + 2) data"
      using lt by (simp add: drop_pair)
    have v: "v = uint (data ! i) + 256 * uint (data ! Suc i)"
      using lt by (simp add: v_def subslice_pair uint_Uint16_pair)
    have af: "addFolded chksum (uint (Uint16 (subslice data i (i + 2)))) =
        (if chksum + uint (Uint16 (subslice data i (i + 2))) > ushrtMax
         then chksum + uint (Uint16 (subslice data i (i + 2))) - ushrtMax
         else chksum + uint (Uint16 (subslice data i (i + 2))))"
      by (simp add: addFolded_def)
    have "sumWords data i chksum = sumWords data (i + 2) (addFolded chksum v)"
      using True by (subst sumWords.simps) (simp add: Let_def addFolded_def v_def)
    also have "\<dots> = foldl addFolded (addFolded chksum v) (leWords (drop (i + 2) data))"
      unfolding v_def af by (rule "1.IH" [OF True refl refl refl])
    also have "\<dots> = foldl addFolded chksum (leWords (drop i data))"
      by (simp add: d v)
    finally show ?thesis .
  next
    case False
    then have "length (drop i data) < 2" by simp
    then have "leWords (drop i data) = []" by (rule leWords_short)
    with False show ?thesis by (subst sumWords.simps) simp
  qed
qed

lemma leWords_range: "w \<in> set (leWords bs) \<Longrightarrow> 0 \<le> w \<and> w \<le> 65535"
proof (induction bs arbitrary: w rule: leWords.induct)
  case (1 lo hi rest)
  have "uint lo < 256" "uint hi < 256" using uint_bounded [of lo] uint_bounded [of hi] by simp_all
  moreover have "0 \<le> uint lo" "0 \<le> uint hi" by simp_all
  ultimately have "0 \<le> uint lo + 256 * uint hi \<and> uint lo + 256 * uint hi \<le> 65535" by linarith
  with 1 show ?case by auto
qed auto

lemma foldl_addFolded_range:
  "0 \<le> acc \<Longrightarrow> acc \<le> 65535 \<Longrightarrow> \<forall>w\<in>set ws. 0 \<le> w \<and> w \<le> 65535 \<Longrightarrow>
   0 \<le> foldl addFolded acc ws \<and> foldl addFolded acc ws \<le> 65535"
  by (induction ws arbitrary: acc) (auto simp: addFolded_def)

lemma raiseNegative_mod: "raiseNegative x = (if x < 0 then x mod 65535 else x)"
proof (induction x rule: raiseNegative.induct)
  case (1 c)
  show ?case
  proof (cases "c < 0")
    case True
    have m: "(c + 65535) mod 65535 = c mod 65535" by simp
    show ?thesis
    proof (cases "c + 65535 < 0")
      case True
      with \<open>c < 0\<close> "1.IH" m show ?thesis by (subst raiseNegative.simps) simp
    next
      case False
      with \<open>c < 0\<close> have "c mod 65535 = c + 65535"
        by (smt (verit) m mod_pos_pos_trivial)
      with False \<open>c < 0\<close> "1.IH" show ?thesis by (subst raiseNegative.simps) simp
    qed
  next
    case False
    then show ?thesis by (subst raiseNegative.simps) simp
  qed
qed

lemma addUntilNonNegative_mod: "addUntilNonNegative x = (if x < 0 then x mod 65535 else x)"
proof (induction x rule: addUntilNonNegative.induct)
  case (1 c)
  show ?case
  proof (cases "c < 0")
    case True
    have m: "(c + 65535) mod 65535 = c mod 65535" by simp
    show ?thesis
    proof (cases "c + 65535 < 0")
      case True
      with \<open>c < 0\<close> "1.IH" m show ?thesis by (subst addUntilNonNegative.simps) simp
    next
      case False
      with \<open>c < 0\<close> have "c mod 65535 = c + 65535"
        by (smt (verit) m mod_pos_pos_trivial)
      with False \<open>c < 0\<close> "1.IH" show ?thesis by (subst addUntilNonNegative.simps) simp
    qed
  next
    case False
    then show ?thesis by (subst addUntilNonNegative.simps) simp
  qed
qed

lemma foldCarry_small:
  "0 \<le> c \<Longrightarrow> c \<le> 65535 + 255 \<Longrightarrow> foldCarry c = (if c > 65535 then c - 65535 else c)"
  by (subst foldCarry.simps, subst foldCarry.simps) simp

lemma referenceChecksum_mod:
  "referenceChecksum bs =
     (- (foldl addFolded 0 (leWords bs) + (if odd (length bs) then uint (last bs) else 0)) - 1) mod 65535"
proof -
  define s where "s = foldl addFolded 0 (leWords bs)"
  define t where "t = (if odd (length bs) then uint (last bs) else 0)"
  have "0 \<le> s"
    unfolding s_def using foldl_addFolded_range [of 0 "leWords bs"] leWords_range by simp
  moreover have "0 \<le> t" by (simp add: t_def)
  ultimately have "- (s + t) - 1 < 0" by linarith
  then have "addUntilNonNegative (- (s + t) - 1) = (- (s + t) - 1) mod 65535"
    by (simp only: addUntilNonNegative_mod if_True)
  then show ?thesis
    by (simp only: referenceChecksum_def s_def t_def)
qed

lemma calculateChecksum_mod:
  "calculateChecksum bs =
     word_of_int ((- (foldl addFolded 0 (leWords bs) + (if odd (length bs) then uint (last bs) else 0)) - 1) mod 65535)"
proof -
  define s where "s = foldl addFolded 0 (leWords bs)"
  define t where "t = (if odd (length bs) then uint (last bs) else 0)"
  have s: "0 \<le> s \<and> s \<le> 65535"
    unfolding s_def using foldl_addFolded_range [of 0 "leWords bs"] leWords_range by simp
  have t: "0 \<le> t \<and> t \<le> 255"
    using uint_bounded [of "last bs"] by (simp add: t_def)
  have last: "bs ! (length bs - 1) = last bs" if "odd (length bs)"
    using that by (cases "bs = []") (simp_all add: last_conv_nth)
  have tb: "(if length bs mod 2 \<noteq> 0 then s + uint (bs ! (length bs - 1)) else s) = s + t"
    using last by (auto simp: t_def odd_iff_mod_2_eq_one)
  have fc: "foldCarry (s + t) = (if s + t > 65535 then s + t - 65535 else s + t)"
    using s t by (intro foldCarry_small) auto
  have m: "(- (s + t - 65535) - 1) mod 65535 = (- (s + t) - 1) mod 65535"
  proof -
    have "- (s + t - 65535) - 1 = (- (s + t) - 1) + 65535" by simp
    then show ?thesis by (simp only: mod_add_self2)
  qed
  define f where "f = (if s + t > 65535 then s + t - 65535 else s + t)"
  have f: "0 \<le> f" using s t by (simp add: f_def)
  have neg: "(if f > 0 then - f else f) = - f" using f by simp
  have "calculateChecksum bs = word_of_int (raiseNegative (- f - 1))"
    unfolding calculateChecksum_def Let_def sumWords_foldl drop_0 s_def [symmetric] tb fc
      f_def [symmetric] neg ..
  also have "raiseNegative (- f - 1) = (- f - 1) mod 65535"
    using f by (simp add: raiseNegative_mod)
  also have "\<dots> = (- (s + t) - 1) mod 65535"
    using m by (simp add: f_def)
  finally have "calculateChecksum bs = word_of_int ((- (s + t) - 1) mod 65535)" .
  then show ?thesis by (simp add: s_def t_def)
qed

text \<open>
  Claim C2. For every byte sequence, \<open>calculateChecksum\<close> returns exactly the
  reference value: the folded sum of the little-endian 16-bit words plus the trailing odd
  byte, negated, decremented and raised by 65535 until non-negative. The result lies in
  \<open>[0, 65535)\<close>, so the conversion to \<open>uint16\<close> loses nothing.
\<close>

theorem calculateChecksum_reference:
  "uint (calculateChecksum bs) = referenceChecksum bs
   \<and> 0 \<le> referenceChecksum bs \<and> referenceChecksum bs < 65535
   \<and> unat (calculateChecksum bs) < 65535"
proof -
  have r: "0 \<le> referenceChecksum bs \<and> referenceChecksum bs < 65535"
    by (simp add: referenceChecksum_mod)
  have c: "calculateChecksum bs = word_of_int (referenceChecksum bs)"
    by (simp add: calculateChecksum_mod referenceChecksum_mod)
  have u: "uint (calculateChecksum bs) = referenceChecksum bs"
    using r by (simp add: c uint_word_of_int)
  have "unat (calculateChecksum bs) = nat (referenceChecksum bs)"
    using u by (metis nat_uint_eq)
  with r u show ?thesis by auto
qed

section \<open>Building a packet\<close>

text \<open>
  \<open>createHeader\<close> allocates the buffer, packs the header with checksum 0 and the
  reply id it was given, computes the checksum over that buffer, increments the reply id
  in \<open>uint16\<close> arithmetic (\<open>replyID + 1\<close> wraps at 65536 before it is compared with
  \<open>ushrtMax\<close>), and packs the checksum and the incremented reply id over the old
  fields.
\<close>

definition createHeader :: "uint16 \<Rightarrow> uint16 \<Rightarrow> uint16 \<Rightarrow> byte list \<Rightarrow> byte list \<times> uint16" where
  "createHeader command sessionID replyID data =
     (let packetLen = 8 + length data;
          buf = replicate packetLen 0;
          buf = PutUint16 buf 0 command;
          buf = PutUint16 buf 2 0;
          buf = PutUint16 buf 4 sessionID;
          buf = PutUint16 buf 6 replyID;
          buf = (if length data > 0 then copy_at buf 8 data else buf);
          checksum = calculateChecksum buf;
          nextReplyID = replyID + 1;
          nextReplyID = (if nextReplyID \<ge> ushrtMax then nextReplyID - ushrtMax else nextReplyID);
          buf = PutUint16 buf 2 checksum;
          buf = PutUint16 buf 6 nextReplyID
      in (buf, nextReplyID))"

text \<open>The wire form of a packet with given header fields: the four \<open>PutUint16\<close> calls
  and the \<open>copy\<close> of \<open>createHeader\<close>, with every field a parameter.\<close>

definition packetBytes :: "uint16 \<Rightarrow> uint16 \<Rightarrow> uint16 \<Rightarrow> uint16 \<Rightarrow> byte list \<Rightarrow> byte list" where
  "packetBytes command checksum sessionID replyID data =
     (let buf = replicate (8 + length data) 0;
          buf = PutUint16 buf 0 command;
          buf = PutUint16 buf 2 checksum;
          buf = PutUint16 buf 4 sessionID;
          buf = PutUint16 buf 6 replyID
      in if length data > 0 then copy_at buf 8 data else buf)"

lemma Uint16_bytes: "Uint16 [ucast v, ucast (drop_bit 8 v)] = (v :: uint16)"
  unfolding Uint16_def
  by (rule bit_word_eqI) (auto simp: bit_simps)

lemma packetBytes_eq:
  "packetBytes c k s r d =
     [ucast c, ucast (drop_bit 8 c), ucast k, ucast (drop_bit 8 k),
      ucast s, ucast (drop_bit 8 s), ucast r, ucast (drop_bit 8 r)] @ d"
  by (simp add: packetBytes_def PutUint16_def copy_at_def Let_def numeral_eq_Suc)

lemma parsePacket_packetBytes:
  "parsePacket (packetBytes c k s r d) =
     Inr \<lparr>Command = c, Checksum = k, SessionID = s, ReplyID = r, Data = d\<rparr>"
  by (simp add: packetBytes_eq parsePacket_def subslice_def Uint16_bytes)

lemma createHeader_eq:
  "createHeader c s r d =
    (let n = (if r + 1 \<ge> 65535 then r + 1 - 65535 else r + 1)
     in (packetBytes c (calculateChecksum (packetBytes c 0 s r d)) s n d, n))"
  by (simp add: createHeader_def packetBytes_def PutUint16_def copy_at_def Let_def numeral_eq_Suc)

lemma parsePacket_fails_iff: "(\<exists>e. parsePacket bs = Inl e) = (length bs < 8)"
  by (simp add: parsePacket_def)

text \<open>
  Claim C7. \<open>parsePacket\<close> fails exactly on inputs shorter than 8 bytes, and applied
  to the little-endian serialization of a header followed by a payload it returns
  exactly the four header fields and the payload.
\<close>

theorem parsePacket_roundtrip:
  "(\<exists>e. parsePacket bs = Inl e) = (length bs < 8)
   \<and> parsePacket (packetBytes command checksum sessionID replyID payload) =
       Inr \<lparr>Command = command, Checksum = checksum, SessionID = sessionID,
            ReplyID = replyID, Data = payload\<rparr>"
  using parsePacket_fails_iff [of bs]
    parsePacket_packetBytes [of command checksum sessionID replyID payload]
  by (rule conjI)

subsection \<open>The reply counter\<close>

lemma createHeader_fields:
  "Uint16 (subslice (fst (createHeader c s r d)) 2 4) = calculateChecksum (packetBytes c 0 s r d)"
  "Uint16 (subslice (fst (createHeader c s r d)) 6 8) = snd (createHeader c s r d)"
  by (simp_all add: createHeader_eq packetBytes_eq [of c "calculateChecksum x" for x]
      subslice_def Uint16_bytes Let_def)

lemma nextReplyID_below:
  assumes "r \<noteq> (65535 :: uint16)"
  shows "uint (snd (createHeader c s r d)) = (uint r + 1) mod 65535"
proof (cases "r = 65534")
  case True
  then show ?thesis by (simp add: createHeader_eq)
next
  case False
  have "uint r \<noteq> uint (65535 :: uint16)" "uint r \<noteq> uint (65534 :: uint16)"
    using assms False by (simp_all only: word_uint_eq_iff [symmetric] not_False_eq_True)
  moreover have "uint r < 65536" using uint_bounded [of r] by simp
  ultimately have lt: "uint r < 65534" by simp
  have u: "uint (r + 1) = uint r + 1"
    using lt by (simp add: uint_word_ariths)
  have "\<not> (65535 :: uint16) \<le> r + 1"
    using lt by (simp add: word_le_def u)
  then have "snd (createHeader c s r d) = r + 1"
    by (simp add: createHeader_eq Let_def)
  then show ?thesis using lt by (simp add: u)
qed

text \<open>
  Claim C1, at the failing input. With reply id 65535 the \<open>uint16\<close> increment
  \<open>replyID + 1\<close> overflows to 0 before it is compared with \<open>ushrtMax\<close>: the returned
  and transmitted reply id is 0, whereas \<open>(65535 + 1) mod 65535\<close> is 1. Everywhere
  else (\<open>nextReplyID_below\<close>, \<open>createHeader_fields\<close>) the packet builder does what the
  claim says.
\<close>

theorem createHeader_replyID_65535:
  "snd (createHeader c s 65535 d) = 0
   \<and> Uint16 (subslice (fst (createHeader c s 65535 d)) 6 8) = 0
   \<and> (uint (65535 :: uint16) + 1) mod 65535 = 1
   \<and> uint (snd (createHeader c s 65535 d)) \<noteq> (uint (65535 :: uint16) + 1) mod 65535"
  by (simp add: createHeader_fields) (simp add: createHeader_eq)

lemma nextReplyID_wraparound:
  "snd (createHeader c s 65534 d) = 0" "snd (createHeader c' s' 0 d') = 1"
  by (simp_all add: createHeader_eq word_le_def)

section \<open>The authentication key\<close>

text \<open>
  \<open>makeCommKey(key int, sessionID uint16)\<close>. Go's \<open>int\<close> is the 64-bit machine integer
  of the platforms the client runs on. The bit-reversal loop and the XOR loop are
  \<open>reverseBits\<close> and \<open>xorBytes\<close>; the rune literals \<open>'Z', 'K', 'S', 'O'\<close> are the
  bytes 0x5A, 0x4B, 0x53, 0x4F.
\<close>

type_synonym goint = "64 word"

function reverseBits :: "goint \<Rightarrow> nat \<Rightarrow> uint32 \<Rightarrow> uint32" where
  "reverseBits key i k =
     (if i < 32 then
        reverseBits key (i + 1)
          (if key AND push_bit i 1 \<noteq> 0 then push_bit 1 k OR 1 else push_bit 1 k)
      else k)"
  by pat_completeness auto
termination
  by (relation "measure (\<lambda>(key, i, k). 32 - i)") auto

declare reverseBits.simps [simp del]

function xorBytes :: "byte list \<Rightarrow> byte list \<Rightarrow> nat \<Rightarrow> byte list" where
  "xorBytes b xorKeys i =
     (if i < 4 then xorBytes (b[i := b ! i XOR xorKeys ! i]) xorKeys (i + 1) else b)"
  by pat_completeness auto
termination
  by (relation "measure (\<lambda>(b, xorKeys, i). 4 - i)") auto

declare xorBytes.simps [simp del]

definition makeCommKey :: "goint \<Rightarrow> uint16 \<Rightarrow> byte list" where
  "makeCommKey key sessionID =
     (let k = reverseBits key 0 0;
          k = k + ucast sessionID;
          b = replicate 4 0;
          b = PutUint32 b 0 k;
          xorKeys = [0x5A, 0x4B, 0x53, 0x4F];
          b = xorBytes b xorKeys 0;
          s1 = Uint16 (subslice b 0 2);
          s2 = Uint16 (subslice b 2 4);
          b = PutUint16 b 0 s2;
          b = PutUint16 b 2 s1;
          mask = 0xFF AND 50;
          b = b[0 := b ! 0 XOR mask];
          b = b[1 := b ! 1 XOR mask];
          b = b[2 := mask];
          b = b[3 := b ! 3 XOR mask]
      in b)"

text \<open>
  The derivation as the specification words it: reverse the 32 bits of the password, add
  the session id, serialize as little-endian \<open>u32\<close>, XOR with the ASCII bytes of
  \<open>ZKSO\<close>, swap the two 16-bit halves, XOR bytes 0, 1 and 3 with 0x32 and set byte 2
  to 0x32.
\<close>

definition specCommKey :: "goint \<Rightarrow> uint16 \<Rightarrow> byte list" where
  "specCommKey password sessionID =
     (let reversed = word_reverse (ucast password :: uint32);
          v = reversed + ucast sessionID;
          le = [ucast v, ucast (drop_bit 8 v), ucast (drop_bit 16 v), ucast (drop_bit 24 v)];
          x = map2 (XOR) le (map of_char ''ZKSO'');
          sw = drop 2 x @ take 2 x
      in [sw ! 0 XOR 0x32, sw ! 1 XOR 0x32, 0x32, sw ! 3 XOR 0x32])"

lemma and_push_bit_1: "(key AND push_bit i 1 \<noteq> 0) = bit (key :: goint) i"
  by (simp only: bit_iff_and_push_bit_not_eq_0)

lemma reverseBits_step_bit:
  fixes k :: uint32
  shows "bit (if b then push_bit 1 k OR 1 else push_bit 1 k) j \<longleftrightarrow>
         (if j = 0 then b else j < 32 \<and> bit k (j - 1))"
proof (cases j)
  case 0
  then show ?thesis by (simp add: bit_0 even_or_iff)
next
  case (Suc n)
  have "bit (push_bit 1 k) (Suc n) \<longleftrightarrow> Suc n < 32 \<and> bit k n"
    by (auto simp only: bit_push_bit_iff possible_bit_word) simp_all
  moreover have "\<not> bit (1 :: uint32) (Suc n)"
    by (simp only: bit_1_iff)
  ultimately have "bit (push_bit 1 k OR 1) (Suc n) \<longleftrightarrow> Suc n < 32 \<and> bit k n"
    by (simp only: bit_or_iff simp_thms)
  with \<open>bit (push_bit 1 k) (Suc n) \<longleftrightarrow> Suc n < 32 \<and> bit k n\<close> show ?thesis
    using Suc by (cases b) simp_all
qed

lemma reverseBits_inv:
  "i \<le> 32 \<Longrightarrow> (\<And>m. bit k m \<longleftrightarrow> m < i \<and> bit key (i - 1 - m)) \<Longrightarrow>
   bit (reverseBits key i k) m \<longleftrightarrow> m < 32 \<and> bit key (31 - m)"
proof (induction key i k arbitrary: m rule: reverseBits.induct)
  case (1 key i k)
  show ?case
  proof (cases "i < 32")
    case True
    define k' where "k' = (if key AND push_bit i 1 \<noteq> 0 then push_bit 1 k OR 1 else push_bit 1 k)"
    have k': "bit k' j \<longleftrightarrow> j < i + 1 \<and> bit key (i + 1 - 1 - j)" for j
    proof (cases j)
      case 0
      then show ?thesis
        unfolding k'_def reverseBits_step_bit and_push_bit_1 by simp
    next
      case (Suc n)
      then show ?thesis using True "1.prems"(2) [of n]
        unfolding k'_def reverseBits_step_bit and_push_bit_1 by auto
    qed
    have "bit (reverseBits key (i + 1) k') m \<longleftrightarrow> m < 32 \<and> bit key (31 - m)"
      unfolding k'_def
    proof (rule "1.IH" [OF True])
      show "i + 1 \<le> 32" using True by simp
      show "bit (if key AND push_bit i 1 \<noteq> 0 then push_bit 1 k OR 1 else push_bit 1 k) m
            \<longleftrightarrow> m < i + 1 \<and> bit key (i + 1 - 1 - m)" for m
        using k' [of m] by (simp only: k'_def)
    qed
    moreover have "reverseBits key i k = reverseBits key (i + 1) k'"
      using True by (subst reverseBits.simps) (simp only: k'_def if_True)
    ultimately show ?thesis by simp
  next
    case False
    with "1.prems" have "i = 32" by simp
    then show ?thesis using "1.prems"(2) [of m] False by (subst reverseBits.simps) simp
  qed
qed

lemma reverseBits_word_reverse: "reverseBits key 0 0 = word_reverse (ucast key :: uint32)"
proof (rule bit_word_eqI)
  fix m assume "m < LENGTH(32)"
  then have m: "m < 32" by simp
  have "bit (reverseBits key 0 0) m \<longleftrightarrow> m < 32 \<and> bit key (31 - m)"
    by (rule reverseBits_inv) simp_all
  moreover have "bit (word_reverse (ucast key :: uint32)) m \<longleftrightarrow> m < 32 \<and> bit key (31 - m)"
    using m by (auto simp: bit_word_reverse_iff bit_simps)
  ultimately show "bit (reverseBits key 0 0) m = bit (word_reverse (ucast key :: uint32)) m"
    by simp
qed

lemma xorBytes_four:
  "xorBytes [a, b, c, d] [p, q, r, s] 0 = [a XOR p, b XOR q, c XOR r, d XOR s]"
  by (simp add: xorBytes.simps)

lemma Uint16_pair_bytes: "ucast (Uint16 [a, b]) = a" "ucast (drop_bit 8 (Uint16 [a, b])) = b"
  unfolding Uint16_def
  by (rule bit_word_eqI; auto simp: bit_simps dest: bit_imp_le_length)+

lemma replicate_four: "replicate 4 x = [x, x, x, x]"
  by (simp add: numeral_eq_Suc)

lemma PutUint32_four:
  "PutUint32 [a, b, c, d] 0 k =
     [ucast k, ucast (drop_bit 8 k), ucast (drop_bit 16 k), ucast (drop_bit 24 k)]"
  by (simp add: PutUint32_def)

lemma PutUint16_swap:
  "PutUint16 (PutUint16 [a, b, c, d] 0 (Uint16 [c, d])) 2 (Uint16 [a, b]) = [c, d, a, b]"
  by (simp add: PutUint16_def Uint16_pair_bytes)

lemma subslice_four:
  "subslice [a, b, c, d] 0 2 = [a, b]" "subslice [a, b, c, d] 2 4 = [c, d]"
  by (simp_all add: subslice_def)

lemma mask_value: "(0xFF AND 50 :: byte) = 0x32"
  by simp

lemma commKey_tail:
  "(let s1 = Uint16 (subslice [a, b, c, d] 0 2);
        s2 = Uint16 (subslice [a, b, c, d] 2 4);
        b = PutUint16 [a, b, c, d] 0 s2;
        b = PutUint16 b 2 s1;
        mask = 0xFF AND 50;
        b = b[0 := b ! 0 XOR mask];
        b = b[1 := b ! 1 XOR mask];
        b = b[2 := mask];
        b = b[3 := b ! 3 XOR mask]
    in b) = [c XOR 0x32, d XOR 0x32, 0x32, b XOR 0x32]"
  unfolding Let_def subslice_four PutUint16_swap mask_value by simp

lemma specCommKey_eq:
  "specCommKey password sessionID =
     (let v = word_reverse (ucast password :: uint32) + ucast sessionID
      in [(ucast (drop_bit 16 v) XOR 0x53) XOR 0x32, (ucast (drop_bit 24 v) XOR 0x4F) XOR 0x32,
          0x32, (ucast (drop_bit 8 v) XOR 0x4B) XOR 0x32])"
  unfolding specCommKey_def Let_def by (simp add: xor.assoc)

text \<open>
  Claim C9. For every password and session id, \<open>makeCommKey\<close> returns the four bytes
  of the specified derivation.
\<close>

theorem makeCommKey_spec: "makeCommKey password sessionID = specCommKey password sessionID"
proof -
  have "makeCommKey password sessionID =
     (let v = word_reverse (ucast password :: uint32) + ucast sessionID
      in [(ucast (drop_bit 16 v) XOR 0x53) XOR 0x32, (ucast (drop_bit 24 v) XOR 0x4F) XOR 0x32,
          0x32, (ucast (drop_bit 8 v) XOR 0x4B) XOR 0x32])"
    unfolding makeCommKey_def reverseBits_word_reverse
    apply (subst Let_def, subst Let_def, subst Let_def, subst Let_def, subst Let_def, subst Let_def)
    unfolding replicate_four PutUint32_four xorBytes_four
    apply (subst commKey_tail)
    apply (simp only: Let_def)
    done
  then show ?thesis
    by (simp only: specCommKey_eq)
qed

section \<open>Packed timestamps\<close>

subsection \<open>The calendar of \<open>time.Time\<close>\<close>

text \<open>
  \<open>encodeTime\<close> takes a \<open>time.Time\<close> and \<open>decodeTime\<close> returns
  \<open>time.Date(year, month, day, hour, minute, second, 0, time.Local)\<close>, so the standard
  library's \<open>time\<close> package is part of what the two functions compute. It is modelled
  by what it is documented to do. A \<open>time.Time\<close> is an instant (seconds since the Unix
  epoch; nanoseconds play no part here) with a location; its fields are those of the
  wall clock the location shows at that instant, in the proleptic Gregorian calendar.
  Days are counted from 1970-01-01; \<open>int64\<close> overflow of the second count is left
  out.
\<close>

definition isLeap :: "int \<Rightarrow> bool" where
  "isLeap year = (year mod 4 = 0 \<and> (year mod 100 \<noteq> 0 \<or> year mod 400 = 0))"

definition daysBeforeYear :: "int \<Rightarrow> int" where
  "daysBeforeYear year =
     365 * (year - 1970) + ((year - 1) div 4 - (year - 1) div 100 + (year - 1) div 400 - 477)"

definition daysBefore :: "int list" where
  "daysBefore = [0, 31, 59, 90, 120, 151, 181, 212, 243, 273, 304, 334, 365]"

definition daysBeforeMonth :: "int \<Rightarrow> int \<Rightarrow> int" where
  "daysBeforeMonth year month =
     daysBefore ! nat (month - 1) + (if isLeap year \<and> month \<ge> 3 then 1 else 0)"

text \<open>Years get longer, never shorter: the search for the year of a day terminates.\<close>

lemma daysBeforeYear_mono: "daysBeforeYear y < daysBeforeYear (y + 1)"
proof -
  have "(y - 1) div 4 \<le> y div 4" by (rule zdiv_mono1) simp_all
  moreover have "y div 100 \<le> (y - 1) div 100 + 1"
  proof -
    have "y div 100 \<le> (y - 1 + 100) div 100" by (rule zdiv_mono1) simp_all
    then show ?thesis by simp
  qed
  moreover have "(y - 1) div 400 \<le> y div 400" by (rule zdiv_mono1) simp_all
  ultimately show ?thesis by (simp add: daysBeforeYear_def)
qed

text \<open>
  The civil date of a day number: the year is searched upwards from a lower estimate,
  then the month within the year.
\<close>

function yearFrom :: "int \<Rightarrow> int \<Rightarrow> int" where
  "yearFrom n y = (if daysBeforeYear (y + 1) \<le> n then yearFrom n (y + 1) else y)"
  by pat_completeness auto
termination
proof (relation "measure (\<lambda>(n, y). nat (n - daysBeforeYear (y + 1) + 1))")
  show "wf (measure (\<lambda>(n, y). nat (n - daysBeforeYear (y + 1) + 1)))" by simp
next
  fix n y :: int
  assume "daysBeforeYear (y + 1) \<le> n"
  then show "((n, y + 1), (n, y)) \<in> measure (\<lambda>(n, y). nat (n - daysBeforeYear (y + 1) + 1))"
    using daysBeforeYear_mono [of "y + 1"] by simp
qed

declare yearFrom.simps [simp del]


function monthFrom :: "int \<Rightarrow> int \<Rightarrow> int \<Rightarrow> int" where
  "monthFrom year yday month =
     (if month < 12 \<and> daysBeforeMonth year (month + 1) \<le> yday
      then monthFrom year yday (month + 1) else month)"
  by pat_completeness auto
termination
  by (relation "measure (\<lambda>(year, yday, month). nat (12 - month))") auto

declare monthFrom.simps [simp del]

definition civilFromDays :: "int \<Rightarrow> int \<times> int \<times> int" where
  "civilFromDays n =
     (let year = yearFrom n (1970 + (if n \<ge> 0 then n div 366 else n div 365));
          yday = n - daysBeforeYear year;
          month = monthFrom year yday 1;
          day = yday - daysBeforeMonth year month + 1
      in (year, month, day))"

text \<open>
  The day number that \<open>time.Date\<close> computes: the month is normalised into 1..12
  with the year carried, the day is added as it is, so that a day beyond the end of its
  month runs into the next month (October 32 is November 1).
\<close>

definition daysFromCivil :: "int \<Rightarrow> int \<Rightarrow> int \<Rightarrow> int" where
  "daysFromCivil year month day =
     (let m = month - 1;
          year = year + m div 12;
          month = m mod 12 + 1
      in daysBeforeYear year + daysBeforeMonth year month + day - 1)"

subsection \<open>Locations\<close>

text \<open>
  A location is the offset (seconds east of UTC) in force before its first transition
  and the list of its transitions, each the instant it happens and the offset from then
  on, in increasing order of time (those that the library derives from the zone's rule
  for the years after its table are entries of the list like the others). \<open>lookup\<close>
  returns the offset in force at an instant and the interval \<open>[start, end)\<close> of
  instants during which it is in force; \<open>alpha\<close> and \<open>omega\<close> are the library's
  bounds for "since ever" and "for ever".
\<close>

record location =
  zoneOffset :: int
  tx :: "(int \<times> int) list"

abbreviation alpha :: int where "alpha \<equiv> - (2 ^ 63)"
abbreviation omega :: int where "omega \<equiv> 2 ^ 63 - 1"

fun lookupFrom :: "int \<Rightarrow> int \<Rightarrow> (int \<times> int) list \<Rightarrow> int \<Rightarrow> int \<times> int \<times> int" where
  "lookupFrom offset start [] sec = (offset, start, omega)"
| "lookupFrom offset start ((when, offset') # rest) sec =
     (if sec < when then (offset, start, when) else lookupFrom offset' when rest sec)"

definition lookup :: "location \<Rightarrow> int \<Rightarrow> int \<times> int \<times> int" where
  "lookup l sec = lookupFrom (zoneOffset l) alpha (tx l) sec"

record goTime =
  unix :: int
  loc :: location

definition wallClock :: "goTime \<Rightarrow> int" where
  "wallClock t = unix t + fst (lookup (loc t) (unix t))"

definition Year :: "goTime \<Rightarrow> int" where
  "Year t = fst (civilFromDays (wallClock t div 86400))"

definition Month :: "goTime \<Rightarrow> int" where
  "Month t = fst (snd (civilFromDays (wallClock t div 86400)))"

definition Day :: "goTime \<Rightarrow> int" where
  "Day t = snd (snd (civilFromDays (wallClock t div 86400)))"

definition Hour :: "goTime \<Rightarrow> int" where
  "Hour t = wallClock t mod 86400 div 3600"

definition Minute :: "goTime \<Rightarrow> int" where
  "Minute t = wallClock t mod 3600 div 60"

definition Second :: "goTime \<Rightarrow> int" where
  "Second t = wallClock t mod 60"

text \<open>
  \<open>time.Date\<close>. Seconds, minutes and hours beyond their range carry into the day;
  adding them up does the same. The instant is then found as the library does: the wall
  clock is first read as if it were UTC, the offset in force at that instant is
  subtracted, and if the result lies outside the period of that offset, the offset in
  force at the result is subtracted instead.
\<close>

definition Date :: "int \<Rightarrow> int \<Rightarrow> int \<Rightarrow> int \<Rightarrow> int \<Rightarrow> int \<Rightarrow> location \<Rightarrow> goTime" where
  "Date year month day hour minute sec l =
     (let d = daysFromCivil year month day;
          unix = d * 86400 + hour * 3600 + minute * 60 + sec;
          (offset, start, end) = lookup l unix;
          unix =
            (if offset \<noteq> 0 then
               let utc = unix - offset;
                   offset = (if utc < start \<or> utc \<ge> end then fst (lookup l utc) else offset)
               in unix - offset
             else unix)
      in \<lparr>unix = unix, loc = l\<rparr>)"

subsection \<open>The codec\<close>



text \<open>The six fields the claim is about.\<close>

definition civilFields :: "goTime \<Rightarrow> int \<times> int \<times> int \<times> int \<times> int \<times> int" where
  "civilFields t = (Year t, Month t, Day t, Hour t, Minute t, Second t)"

text \<open>Two zones for the examples: UTC, and New York with its two transitions of 2024
  (to daylight time on 2024-03-10 at 07:00:00 UTC, back on 2024-11-03 at 06:00:00 UTC).\<close>

definition utcZone :: location where
  "utcZone = \<lparr>zoneOffset = 0, tx = []\<rparr>"


lemma calendar_samples:
  "civilFromDays 0 = (1970, 1, 1)" "civilFromDays (- 1) = (1969, 12, 31)"
  "civilFromDays 11016 = (2000, 2, 29)" "civilFromDays 11017 = (2000, 3, 1)"
  "civilFromDays 19782 = (2024, 2, 29)" "civilFromDays (daysFromCivil 2100 2 29) = (2100, 3, 1)"
  "civilFromDays (daysFromCivil 1900 3 1 - 1) = (1900, 2, 28)"
  "civilFromDays (daysFromCivil 2099 12 31) = (2099, 12, 31)"
  by code_simp+

lemma Date_normalises_day:
  "civilFields (Date 2024 2 31 0 0 0 utcZone) = (2024, 3, 2, 0, 0, 0)"
  by code_simp

















section \<open>Connection and client state\<close>

text \<open>
  The socket is modelled by the conversation it will have. \<open>reads\<close> lists the results
  of the \<open>Read\<close> calls still to come, oldest first, each with the time (in nanoseconds)
  that passes while the call blocks; a result is the bytes the call returns or the error
  it fails with (a deadline that elapses is a scripted \<open>Timeout\<close>). Every
  conversation is finite: when the list is exhausted the peer has closed the connection
  and \<open>Read\<close> fails with \<open>EOF\<close>.
  \<open>writes\<close> lists the results of the \<open>Write\<close> calls to come (none left: the write
  succeeds), \<open>sent\<close> collects what was written, \<open>now\<close> is the monotonic clock.
  \<open>SetReadDeadline\<close> and \<open>SetWriteDeadline\<close> leave this state unchanged: whether a
  call times out is the script's decision. A \<open>Read\<close> into a buffer of \<open>n\<close> bytes
  returns at most \<open>n\<close> bytes.
\<close>

record netConn =
  now :: int
  reads :: "(int \<times> (io_error + byte list)) list"
  writes :: "io_error option list"
  sent :: "byte list list"

definition connRead :: "nat \<Rightarrow> netConn \<Rightarrow> (io_error + byte list) \<times> netConn" where
  "connRead n c =
     (case reads c of
        [] \<Rightarrow> (Inl EOF, c)
      | (d, r) # rest \<Rightarrow>
          (case r of Inl e \<Rightarrow> Inl e | Inr bs \<Rightarrow> Inr (take n bs),
           c\<lparr>now := now c + d, reads := rest\<rparr>))"

definition connWrite :: "byte list \<Rightarrow> netConn \<Rightarrow> io_error option \<times> netConn" where
  "connWrite bs c =
     (case writes c of
        [] \<Rightarrow> (None, c\<lparr>sent := sent c @ [bs]\<rparr>)
      | None # rest \<Rightarrow> (None, c\<lparr>writes := rest, sent := sent c @ [bs]\<rparr>)
      | Some e # rest \<Rightarrow> (Some e, c\<lparr>writes := rest\<rparr>))"

text \<open>
  The fields of \<open>ZKTeco\<close> that the protocol engine reads or writes after the dial;
  \<open>conn\<close> is \<open>None\<close> for a \<open>nil\<close> connection.
\<close>

record zkteco =
  protocol :: string
  conn :: "netConn option"
  sessionID :: uint16
  replyID :: uint16
  lastData :: "byte list"
  tcpBuffer :: "byte list"

definition IsTCP :: "zkteco \<Rightarrow> bool" where
  "IsTCP z = (protocol z = ''tcp'')"

definition wrapTCP :: "byte list \<Rightarrow> byte list" where
  "wrapTCP packet =
     (let result = replicate (8 + length packet) 0;
          result = copy_at result 0 tcpMagic;
          result = PutUint32 result 4 (of_nat (length packet));
          result = copy_at result 8 packet
      in result)"

definition sendData :: "zkteco \<Rightarrow> byte list \<Rightarrow> error option \<times> zkteco" where
  "sendData z data =
     (case conn z of
        None \<Rightarrow> (Some NotConnected, z)
      | Some c \<Rightarrow>
          let toSend = (if IsTCP z then wrapTCP data else data) in
          case connWrite toSend c of
            (None, c') \<Rightarrow> (None, z\<lparr>conn := Some c'\<rparr>)
          | (Some e, c') \<Rightarrow> (Some (IOErr e), z\<lparr>conn := Some c'\<rparr>))"

definition recvUDP :: "zkteco \<Rightarrow> (error + byte list) \<times> zkteco" where
  "recvUDP z =
     (case conn z of
        None \<Rightarrow> (Inl NilDereference, z)
      | Some c \<Rightarrow>
          (case connRead 65536 c of
             (Inl e, c') \<Rightarrow> (Inl (IOErr e), z\<lparr>conn := Some c'\<rparr>)
           | (Inr result, c') \<Rightarrow> (Inr result, z\<lparr>conn := Some c'\<rparr>)))"

definition extractTCPPacket :: "byte list \<Rightarrow> byte list \<times> byte list \<times> bool" where
  "extractTCPPacket buf =
     (if length buf < 8 then ([], buf, False)
      else if buf ! 0 \<noteq> 0x50 \<or> buf ! 1 \<noteq> 0x50 \<or> buf ! 2 \<noteq> 0x82 \<or> buf ! 3 \<noteq> 0x7D
      then ([], buf, False)
      else
        let payloadLen = unat (Uint32 (subslice buf 4 8));
            totalLen = 8 + payloadLen
        in if length buf < totalLen then ([], buf, False)
           else
             let payload = subslice buf 8 totalLen;
                 remainder = (if length buf > totalLen then drop totalLen buf else [])
             in (payload, remainder, True))"

text \<open>
  \<open>recvTCP\<close> loops until a frame can be extracted. Every turn of the loop without a
  frame consumes one scripted \<open>Read\<close>, which is what makes it terminate.
\<close>

definition pendingReads :: "zkteco \<Rightarrow> nat" where
  "pendingReads z = (case conn z of None \<Rightarrow> 0 | Some c \<Rightarrow> length (reads c))"

function recvTCP :: "zkteco \<Rightarrow> (error + byte list) \<times> zkteco" where
  "recvTCP z =
     (case extractTCPPacket (tcpBuffer z) of
        (payload, remainder, True) \<Rightarrow> (Inr payload, z\<lparr>tcpBuffer := remainder\<rparr>)
      | (payload, remainder, False) \<Rightarrow>
          (case conn z of
             None \<Rightarrow> (Inl NilDereference, z)
           | Some c \<Rightarrow>
               (case connRead 16384 c of
                  (Inl e, c') \<Rightarrow> (Inl (IOErr e), z\<lparr>conn := Some c'\<rparr>)
                | (Inr bs, c') \<Rightarrow>
                    recvTCP (z\<lparr>conn := Some c', tcpBuffer := tcpBuffer z @ bs\<rparr>))))"
  by pat_completeness auto
termination
  by (relation "measure pendingReads")
    (auto simp: pendingReads_def connRead_def split: list.splits sum.splits)

declare recvTCP.simps [simp del]

definition recvData :: "zkteco \<Rightarrow> (error + byte list) \<times> zkteco" where
  "recvData z =
     (case conn z of
        None \<Rightarrow> (Inl NotConnected, z)
      | Some c \<Rightarrow> if IsTCP z then recvTCP z else recvUDP z)"

text \<open>
  \<open>command\<close>: adopt the reply id echoed in the last response, build and send the
  packet, receive one response, then update \<open>replyID\<close> and \<open>lastData\<close>, and only
  then compare the session id.
\<close>

definition command :: "zkteco \<Rightarrow> uint16 \<Rightarrow> byte list \<Rightarrow> string \<Rightarrow> (error + byte list) \<times> zkteco" where
  "command z cmd data cmdType =
     (let z = (if length (lastData z) \<ge> 8
               then z\<lparr>replyID := Uint16 (subslice (lastData z) 6 8)\<rparr> else z);
          (pkt, nextReplyID) = createHeader cmd (sessionID z) (replyID z) data
      in case sendData z pkt of
           (Some err, z) \<Rightarrow> (Inl err, z)
         | (None, z) \<Rightarrow>
             (case recvData z of
                (Inl err, z) \<Rightarrow> (Inl err, z)
              | (Inr resp, z) \<Rightarrow>
                  let z = z\<lparr>replyID := nextReplyID, lastData := resp\<rparr> in
                  if cmdType = ''data'' then (Inr resp, z)
                  else if sessionID z \<noteq> 0 \<and> length resp \<ge> 6 then
                    let respSessionID = Uint16 (subslice resp 4 6) in
                    if respSessionID \<noteq> sessionID z
                    then (Inl (SessionMismatch (sessionID z) respSessionID), z)
                    else (Inr resp, z)
                  else (Inr resp, z)))"

subsection \<open>Session check after the state update\<close>

lemma sendData_sessionID: "sendData z pkt = (r, z') \<Longrightarrow> sessionID z' = sessionID z"
  by (auto simp: sendData_def Let_def split: option.splits prod.splits)

lemma recvUDP_sessionID: "recvUDP z = (r, z') \<Longrightarrow> sessionID z' = sessionID z"
  by (auto simp: recvUDP_def split: option.splits prod.splits sum.splits)

lemma recvTCP_sessionID: "recvTCP z = (r, z') \<Longrightarrow> sessionID z' = sessionID z"
proof (induction z arbitrary: r z' rule: recvTCP.induct)
  case (1 z)
  obtain payload remainder ok where ex: "extractTCPPacket (tcpBuffer z) = (payload, remainder, ok)"
    by (cases "extractTCPPacket (tcpBuffer z)") auto
  show ?case
  proof (cases ok)
    case True
    with ex "1.prems" show ?thesis by (subst (asm) recvTCP.simps) auto
  next
    case False
    note nok = this
    show ?thesis
    proof (cases "conn z")
      case None
      with ex nok "1.prems" show ?thesis by (subst (asm) recvTCP.simps) auto
    next
      case (Some c)
      obtain rr c' where rd: "connRead 16384 c = (rr, c')" by (cases "connRead 16384 c") auto
      show ?thesis
      proof (cases rr)
        case (Inl e)
        with ex nok Some rd "1.prems" show ?thesis by (subst (asm) recvTCP.simps) auto
      next
        case (Inr bs)
        with ex nok Some rd "1.prems"
        have "recvTCP (z\<lparr>conn := Some c', tcpBuffer := tcpBuffer z @ bs\<rparr>) = (r, z')"
          by (subst (asm) recvTCP.simps) auto
        from "1.IH" [OF ex [symmetric] refl _ Some rd [symmetric] Inr this] nok
        show ?thesis by simp
      qed
    qed
  qed
qed

lemma recvData_sessionID: "recvData z = (r, z') \<Longrightarrow> sessionID z' = sessionID z"
  by (auto simp: recvData_def recvUDP_sessionID recvTCP_sessionID split: option.splits if_splits)

text \<open>
  Claim C10. In a non-bulk exchange whose packet was sent and whose response was received,
  if the client's session id is not zero and the session id field of the response (bytes
  4..6) differs from it, \<open>command\<close> returns the session-mismatch error, and the state
  it leaves has \<open>replyID\<close> advanced to the next reply id and \<open>lastData\<close> set to the
  mismatched response.
\<close>

theorem command_session_mismatch:
  assumes general: "cmdType \<noteq> ''data''"
    and session: "sessionID z \<noteq> 0"
    and echo: "z0 = (if length (lastData z) \<ge> 8
                     then z\<lparr>replyID := Uint16 (subslice (lastData z) 6 8)\<rparr> else z)"
    and header: "createHeader cmd (sessionID z0) (replyID z0) data = (pkt, nextReplyID)"
    and sent: "sendData z0 pkt = (None, z1)"
    and received: "recvData z1 = (Inr resp, z2)"
    and long: "length resp \<ge> 6"
    and differs: "Uint16 (subslice resp 4 6) \<noteq> sessionID z"
  shows "command z cmd data cmdType =
           (Inl (SessionMismatch (sessionID z) (Uint16 (subslice resp 4 6))),
            z2\<lparr>replyID := nextReplyID, lastData := resp\<rparr>)"
proof -
  have s0: "sessionID z0 = sessionID z" by (simp add: echo)
  have s2: "sessionID z2 = sessionID z"
    using sendData_sessionID [OF sent] recvData_sessionID [OF received] s0 by simp
  show ?thesis
    unfolding command_def echo [symmetric] Let_def header
    using general session long differs by (simp add: sent received s2)
qed

theorem command_session_mismatch_witness:
  "command \<lparr>protocol = ''udp'',
             conn = Some \<lparr>now = 0, reads = [(0, Inr [0xD0, 0x07, 0, 0, 43, 0, 0, 0])],
                          writes = [], sent = []\<rparr>,
             sessionID = 42, replyID = 65534, lastData = [], tcpBuffer = []\<rparr>
     1100 [] ''general''
   = (Inl (SessionMismatch 42 43),
      \<lparr>protocol = ''udp'',
       conn = Some \<lparr>now = 0, reads = [], writes = [],
                    sent = [fst (createHeader 1100 42 65534 [])]\<rparr>,
       sessionID = 42, replyID = 0, lastData = [0xD0, 0x07, 0, 0, 43, 0, 0, 0], tcpBuffer = []\<rparr>)"
  using command_session_mismatch [of "''general''"
      "\<lparr>protocol = ''udp'',
        conn = Some \<lparr>now = 0, reads = [(0, Inr [0xD0, 0x07, 0, 0, 43, 0, 0, 0])],
                     writes = [], sent = []\<rparr>,
        sessionID = 42, replyID = 65534, lastData = [], tcpBuffer = []\<rparr>"
      _ 1100 "[]" "fst (createHeader 1100 42 65534 [])" 0
      "\<lparr>protocol = ''udp'',
        conn = Some \<lparr>now = 0, reads = [(0, Inr [0xD0, 0x07, 0, 0, 43, 0, 0, 0])],
                     writes = [], sent = [fst (createHeader 1100 42 65534 [])]\<rparr>,
        sessionID = 42, replyID = 65534, lastData = [], tcpBuffer = []\<rparr>"
      "[0xD0, 0x07, 0, 0, 43, 0, 0, 0]"
      "\<lparr>protocol = ''udp'',
        conn = Some \<lparr>now = 0, reads = [], writes = [],
                     sent = [fst (createHeader 1100 42 65534 [])]\<rparr>,
        sessionID = 42, replyID = 65534, lastData = [], tcpBuffer = []\<rparr>"]
  by (simp add: sendData_def recvData_def recvUDP_def IsTCP_def connWrite_def connRead_def
      subslice_def Uint16_def nextReplyID_wraparound prod_eq_iff)

subsection \<open>TCP frames with a wrong magic\<close>

lemma take_four: "4 \<le> length buf \<Longrightarrow> take 4 buf = [buf ! 0, buf ! 1, buf ! 2, buf ! 3]"
  by (auto simp: list_eq_iff_nth_eq nth_Cons' numeral_eq_Suc less_Suc_eq)

lemma extractTCPPacket_mismatch:
  assumes "8 \<le> length buf" "take 4 buf \<noteq> tcpMagic"
  shows "extractTCPPacket buf = ([], buf, False)"
proof -
  have "take 4 buf = [buf ! 0, buf ! 1, buf ! 2, buf ! 3]"
    using assms(1) by (simp add: take_four)
  with assms(2) have "buf ! 0 \<noteq> 0x50 \<or> buf ! 1 \<noteq> 0x50 \<or> buf ! 2 \<noteq> 0x82 \<or> buf ! 3 \<noteq> 0x7D"
    by (auto simp: tcpMagic_def)
  with assms(1) show ?thesis by (simp add: extractTCPPacket_def)
qed

text \<open>Once the head of the buffer is not the magic, no later read repairs it.\<close>

lemma recvTCP_mismatch_no_frame:
  "8 \<le> length (tcpBuffer z) \<Longrightarrow> take 4 (tcpBuffer z) \<noteq> tcpMagic \<Longrightarrow>
   recvTCP z = (r, z') \<Longrightarrow> \<exists>e. r = Inl e"
proof (induction z arbitrary: r z' rule: recvTCP.induct)
  case (1 z)
  have ex: "extractTCPPacket (tcpBuffer z) = ([], tcpBuffer z, False)"
    using "1.prems"(1,2) by (rule extractTCPPacket_mismatch)
  show ?case
  proof (cases "conn z")
    case None
    with ex "1.prems"(3) show ?thesis by (subst (asm) recvTCP.simps) auto
  next
    case (Some c)
    obtain rr c' where rd: "connRead 16384 c = (rr, c')" by (cases "connRead 16384 c") auto
    show ?thesis
    proof (cases rr)
      case (Inl e)
      with ex Some rd "1.prems"(3) show ?thesis by (subst (asm) recvTCP.simps) auto
    next
      case (Inr bs)
      let ?z1 = "z\<lparr>conn := Some c', tcpBuffer := tcpBuffer z @ bs\<rparr>"
      from ex Some rd Inr "1.prems"(3) have run: "recvTCP ?z1 = (r, z')"
        by (subst (asm) recvTCP.simps) auto
      have "8 \<le> length (tcpBuffer ?z1)" "take 4 (tcpBuffer ?z1) \<noteq> tcpMagic"
        using "1.prems"(1,2) by simp_all
      from "1.IH" [OF ex [symmetric] refl _ Some rd [symmetric] Inr this run]
      show ?thesis by simp
    qed
  qed
qed

text \<open>
  Claim C3, as the code has it. For every receive buffer of at least 8 bytes whose first
  4 bytes are not the magic sequence, \<open>extractTCPPacket\<close> answers "no complete frame
  yet" (no payload, the buffer unchanged, \<open>ok = false\<close>), whether or not the buffer
  holds enough bytes for the declared length; \<open>recvTCP\<close> then reads again and appends
  to the buffer. No desync error exists: the call never returns a frame and ends with the
  error of a later read.
\<close>

theorem magic_mismatch_keeps_buffering:
  assumes "8 \<le> length (tcpBuffer z)" and "take 4 (tcpBuffer z) \<noteq> tcpMagic"
    and "conn z = Some c"
  shows "extractTCPPacket (tcpBuffer z) = ([], tcpBuffer z, False)
    \<and> recvTCP z =
        (case connRead 16384 c of
           (Inl e, c') \<Rightarrow> (Inl (IOErr e), z\<lparr>conn := Some c'\<rparr>)
         | (Inr bs, c') \<Rightarrow> recvTCP (z\<lparr>conn := Some c', tcpBuffer := tcpBuffer z @ bs\<rparr>))
    \<and> (\<exists>e. fst (recvTCP z) = Inl e)"
proof (intro conjI)
  show ex: "extractTCPPacket (tcpBuffer z) = ([], tcpBuffer z, False)"
    using assms(1,2) by (rule extractTCPPacket_mismatch)
  show "recvTCP z =
        (case connRead 16384 c of
           (Inl e, c') \<Rightarrow> (Inl (IOErr e), z\<lparr>conn := Some c'\<rparr>)
         | (Inr bs, c') \<Rightarrow> recvTCP (z\<lparr>conn := Some c', tcpBuffer := tcpBuffer z @ bs\<rparr>))"
    by (subst recvTCP.simps) (simp add: ex assms(3))
  show "\<exists>e. fst (recvTCP z) = Inl e"
    using recvTCP_mismatch_no_frame [OF assms(1,2), of "fst (recvTCP z)" "snd (recvTCP z)"]
    by simp
qed

theorem magic_mismatch_keeps_buffering_witness:
  "let z = \<lparr>protocol = ''tcp'',
            conn = Some \<lparr>now = 0, reads = [(0, Inr [0xCC])], writes = [], sent = []\<rparr>,
            sessionID = 0, replyID = 0, lastData = [],
            tcpBuffer = [0x51, 0x50, 0x82, 0x7D, 2, 0, 0, 0, 0xAA, 0xBB]\<rparr>
   in extractTCPPacket (tcpBuffer z) = ([], tcpBuffer z, False)
      \<and> recvTCP z = recvTCP (z\<lparr>conn := Some \<lparr>now = 0, reads = [], writes = [], sent = []\<rparr>,
                                tcpBuffer := tcpBuffer z @ [0xCC]\<rparr>)"
  using magic_mismatch_keeps_buffering [of
      "\<lparr>protocol = ''tcp'',
        conn = Some \<lparr>now = 0, reads = [(0, Inr [0xCC])], writes = [], sent = []\<rparr>,
        sessionID = 0, replyID = 0, lastData = [],
        tcpBuffer = [0x51, 0x50, 0x82, 0x7D, 2, 0, 0, 0, 0xAA, 0xBB]\<rparr>"
      "\<lparr>now = 0, reads = [(0, Inr [0xCC])], writes = [], sent = []\<rparr>"]
  by (simp add: Let_def tcpMagic_def connRead_def)

text \<open>
  The claim as stated fails: a buffer of 10 bytes with a wrong first byte and declared
  length 2 holds a full frame's worth of bytes, yet extraction answers "not complete",
  \<open>recvTCP\<close> buffers the next byte that arrives, and the only error is the \<open>EOF\<close>
  of the connection.
\<close>

theorem magic_mismatch_counterexample:
  "let buf = [0x51, 0x50, 0x82, 0x7D, 2, 0, 0, 0, 0xAA, 0xBB];
       z = \<lparr>protocol = ''tcp'',
            conn = Some \<lparr>now = 0, reads = [(0, Inr [0xCC])], writes = [], sent = []\<rparr>,
            sessionID = 0, replyID = 0, lastData = [], tcpBuffer = buf\<rparr>
   in 8 \<le> length buf \<and> take 4 buf \<noteq> tcpMagic
      \<and> 8 + unat (Uint32 (subslice buf 4 8)) \<le> length buf
      \<and> extractTCPPacket buf = ([], buf, False)
      \<and> fst (recvTCP z) = Inl (IOErr EOF)
      \<and> tcpBuffer (snd (recvTCP z)) = buf @ [0xCC]"
  by (simp add: Let_def tcpMagic_def Uint32_def subslice_def extractTCPPacket_def
      recvTCP.simps connRead_def)

section \<open>Bulk transfer\<close>

text \<open>The command codes the engine tests, untyped constants of the source.\<close>

abbreviation CMD_ACK_OK :: "'a::numeral" where "CMD_ACK_OK \<equiv> 2000"
abbreviation CMD_ACK_DATA :: "'a::numeral" where "CMD_ACK_DATA \<equiv> 2002"
abbreviation CMD_PREPARE_DATA :: "'a::numeral" where "CMD_PREPARE_DATA \<equiv> 1500"
abbreviation CMD_REG_EVENT :: "'a::numeral" where "CMD_REG_EVENT \<equiv> 500"

function readNextTCPPayload_loop :: "zkteco \<Rightarrow> nat \<Rightarrow> (error + byte list) \<times> zkteco" where
  "readNextTCPPayload_loop z attempts =
     (if attempts < 50 then
        (case extractTCPPacket (tcpBuffer z) of
           (payload, remainder, True) \<Rightarrow> (Inr payload, z\<lparr>tcpBuffer := remainder\<rparr>)
         | (payload, remainder, False) \<Rightarrow>
             (case conn z of
                None \<Rightarrow> (Inl NilDereference, z)
              | Some c \<Rightarrow>
                  (case connRead 16384 c of
                     (Inl e, c') \<Rightarrow> (Inl (IOErr e), z\<lparr>conn := Some c'\<rparr>)
                   | (Inr bs, c') \<Rightarrow>
                       readNextTCPPayload_loop
                         (z\<lparr>conn := Some c', tcpBuffer := tcpBuffer z @ bs\<rparr>) (attempts + 1))))
      else (Inl MaxAttempts, z))"
  by pat_completeness auto
termination
  by (relation "measure (\<lambda>(z, attempts). 50 - attempts)") auto

declare readNextTCPPayload_loop.simps [simp del]

definition readNextTCPPayload :: "zkteco \<Rightarrow> (error + byte list) \<times> zkteco" where
  "readNextTCPPayload z = readNextTCPPayload_loop z 0"

text \<open>
  The receive step at the top of the loop body of \<open>recvLargeData\<close>: the next
  reassembled frame on TCP, the next datagram (read into a 65536-byte buffer) on UDP.
\<close>

definition readChunk :: "zkteco \<Rightarrow> (error + byte list) \<times> zkteco" where
  "readChunk z =
     (if IsTCP z then readNextTCPPayload z
      else
        (case conn z of
           None \<Rightarrow> (Inl NilDereference, z)
         | Some c \<Rightarrow>
             (case connRead 65536 c of
                (Inl readErr, c') \<Rightarrow> (Inl (IOErr readErr), z\<lparr>conn := Some c'\<rparr>)
              | (Inr chunk, c') \<Rightarrow> (Inr chunk, z\<lparr>conn := Some c'\<rparr>))))"

text \<open>
  A chunk that arrives either consumes a scripted \<open>Read\<close> or takes a complete frame out
  of the reassembly buffer; the chunk loop terminates on this order.
\<close>

definition progress :: "(zkteco \<times> zkteco) set" where
  "progress = measures [pendingReads, \<lambda>z. length (tcpBuffer z)]"

lemma wf_progress: "wf progress"
  by (simp add: progress_def)

lemma progress_iff:
  "(z', z) \<in> progress \<longleftrightarrow>
     pendingReads z' < pendingReads z
     \<or> (pendingReads z' = pendingReads z \<and> length (tcpBuffer z') < length (tcpBuffer z))"
  by (simp add: progress_def)

lemma connRead_Inr_pending:
  "connRead n c = (Inr bs, c') \<Longrightarrow> length (reads c') < length (reads c)"
  by (auto simp: connRead_def split: list.splits sum.splits)

lemma connRead_pending_le:
  "connRead n c = (r, c') \<Longrightarrow> length (reads c') \<le> length (reads c)"
  by (auto simp: connRead_def split: list.splits sum.splits)

lemma connRead_Timeout_pending:
  "connRead n c = (Inl Timeout, c') \<Longrightarrow> length (reads c') < length (reads c)"
  by (auto simp: connRead_def split: list.splits sum.splits)

lemma extractTCPPacket_True:
  "extractTCPPacket buf = (payload, remainder, True) \<Longrightarrow> length remainder < length buf"
  by (auto simp: extractTCPPacket_def Let_def split: if_splits)

lemma readNextTCPPayload_loop_progress:
  "readNextTCPPayload_loop z attempts = (Inr payload, z') \<Longrightarrow> (z', z) \<in> progress"
proof (induction z attempts arbitrary: payload z' rule: readNextTCPPayload_loop.induct)
  case (1 z attempts)
  from "1.prems" have lt: "attempts < 50"
    by (subst (asm) readNextTCPPayload_loop.simps) (auto split: if_splits)
  obtain p rem ok where ex: "extractTCPPacket (tcpBuffer z) = (p, rem, ok)"
    by (cases "extractTCPPacket (tcpBuffer z)") auto
  show ?case
  proof (cases ok)
    case True
    with ex "1.prems" lt have "z' = z\<lparr>tcpBuffer := rem\<rparr>"
      by (subst (asm) readNextTCPPayload_loop.simps) auto
    moreover have "length rem < length (tcpBuffer z)"
      using ex True by (auto dest: extractTCPPacket_True)
    ultimately show ?thesis by (simp add: progress_iff pendingReads_def)
  next
    case False
    note nok = this
    show ?thesis
    proof (cases "conn z")
      case None
      with ex nok lt "1.prems" show ?thesis
        by (subst (asm) readNextTCPPayload_loop.simps) auto
    next
      case (Some c)
      obtain rr c' where rd: "connRead 16384 c = (rr, c')" by (cases "connRead 16384 c") auto
      show ?thesis
      proof (cases rr)
        case (Inl e)
        with ex nok lt Some rd "1.prems" show ?thesis
          by (subst (asm) readNextTCPPayload_loop.simps) auto
      next
        case (Inr bs)
        let ?z1 = "z\<lparr>conn := Some c', tcpBuffer := tcpBuffer z @ bs\<rparr>"
        from ex nok lt Some rd Inr "1.prems"
        have "readNextTCPPayload_loop ?z1 (attempts + 1) = (Inr payload, z')"
          by (subst (asm) readNextTCPPayload_loop.simps) auto
        from "1.IH" [OF lt ex [symmetric] refl _ Some rd [symmetric] Inr this] nok
        have "(z', ?z1) \<in> progress" by simp
        then have "pendingReads z' \<le> pendingReads ?z1" by (auto simp: progress_iff)
        moreover have "pendingReads ?z1 < pendingReads z"
          using connRead_Inr_pending [of 16384 c bs c'] rd Inr Some
          by (simp add: pendingReads_def)
        ultimately show ?thesis by (simp add: progress_iff)
      qed
    qed
  qed
qed

lemma readChunk_progress:
  "readChunk z = (Inr chunk, z') \<Longrightarrow> (z', z) \<in> progress"
  by (auto simp: readChunk_def readNextTCPPayload_def progress_iff pendingReads_def
      dest: readNextTCPPayload_loop_progress connRead_Inr_pending
      split: if_splits option.splits prod.splits sum.splits)

text \<open>
  The \<open>for received < totalSize\<close> loop with its variables \<open>allData\<close>, \<open>received\<close>
  and \<open>first\<close>. \<open>totalSize\<close> is \<open>int(Uint32(...))\<close> on a 64-bit \<open>int\<close>: never
  negative, so a natural number.
\<close>

function recvChunks ::
  "zkteco \<Rightarrow> nat \<Rightarrow> byte list \<Rightarrow> nat \<Rightarrow> bool \<Rightarrow> (error + byte list) \<times> zkteco" where
  "recvChunks z totalSize allData received first =
     (if received < totalSize then
        (case readChunk z of
           (Inl err, z') \<Rightarrow> (Inl (ReceiveChunk err), z')
         | (Inr chunk, z') \<Rightarrow>
             if first then
               recvChunks z' totalSize (allData @ chunk)
                 (if length chunk > 8 then received + (length chunk - 8) else received) False
             else if length chunk > 8 then
               recvChunks z' totalSize (allData @ drop 8 chunk) (received + (length chunk - 8)) False
             else
               recvChunks z' totalSize (allData @ chunk) (received + length chunk) False)
      else (Inr allData, z))"
  by pat_completeness auto
termination
  by (relation "inv_image progress fst")
    (auto simp: wf_progress dest: readChunk_progress [OF sym])

declare recvChunks.simps [simp del]

definition recvLargeData :: "zkteco \<Rightarrow> byte list \<Rightarrow> (error + byte list) \<times> zkteco" where
  "recvLargeData z prepareResp =
     (if length prepareResp < 12 then (Inl (PrepareTooShort (length prepareResp)), z)
      else
        let totalSize = unat (Uint32 (subslice prepareResp 8 12)) in
        if totalSize \<le> 0 then (Inr [], z)
        else
          (case recvChunks z totalSize [] 0 True of
             (Inl err, z') \<Rightarrow> (Inl err, z')
           | (Inr allData, z') \<Rightarrow>
               (case recvData z' of
                  (Inl err, z'') \<Rightarrow> (Inl (ReceiveFinalAck err), z'')
                | (Inr finalResp, z'') \<Rightarrow> (Inr allData, z''\<lparr>lastData := finalResp\<rparr>))))"

definition commandData :: "zkteco \<Rightarrow> uint16 \<Rightarrow> byte list \<Rightarrow> (error + byte list) \<times> zkteco" where
  "commandData z cmd data =
     (case command z cmd data ''data'' of
        (Inl err, z') \<Rightarrow> (Inl err, z')
      | (Inr resp, z') \<Rightarrow>
          (case parsePacket resp of
             Inl err \<Rightarrow> (Inl err, z')
           | Inr pkt \<Rightarrow>
               if Command pkt = CMD_PREPARE_DATA then recvLargeData z' resp
               else if Command pkt = CMD_ACK_DATA \<or> Command pkt = CMD_ACK_OK then (Inr resp, z')
               else (Inl (UnexpectedResponse (Command pkt)), z')))"

subsection \<open>A scripted UDP client\<close>

text \<open>A UDP client right after the dial, with the datagrams it is going to receive.\<close>

definition udpClient :: "byte list list \<Rightarrow> zkteco" where
  "udpClient datagrams =
     \<lparr>protocol = ''udp'',
      conn = Some \<lparr>now = 0, reads = map (\<lambda>d. (0, Inr d)) datagrams, writes = [], sent = []\<rparr>,
      sessionID = 0, replyID = 65534, lastData = [], tcpBuffer = []\<rparr>"

lemma udp_readChunk:
  "length d \<le> 65536 \<Longrightarrow> readChunk (udpClient (d # ds)) = (Inr d, udpClient ds)"
  by (simp add: readChunk_def udpClient_def IsTCP_def connRead_def)

lemma udp_recvData:
  "length d \<le> 65536 \<Longrightarrow> recvData (udpClient (d # ds)) = (Inr d, udpClient ds)"
  by (simp add: recvData_def recvUDP_def udpClient_def IsTCP_def connRead_def)

lemma udp_command_general:
  "length d \<le> 65536 \<Longrightarrow>
   command (udpClient (d # ds)) cmd payload cmdType =
     (Inr d, (udpClient ds)\<lparr>conn := Some \<lparr>now = 0, reads = map (\<lambda>d. (0, Inr d)) ds, writes = [],
                                    sent = [fst (createHeader cmd 0 65534 payload)]\<rparr>,
                          replyID := 0, lastData := d\<rparr>)"
  by (simp add: command_def udpClient_def sendData_def recvData_def recvUDP_def IsTCP_def
      connWrite_def connRead_def split_beta nextReplyID_wraparound Let_def)

lemma udp_recvFrame:
  "length d \<le> 65536 \<Longrightarrow>
   (if IsTCP (udpClient (d # ds)) then recvTCP (udpClient (d # ds)) else recvUDP (udpClient (d # ds)))
     = (Inr d, udpClient ds)"
  by (simp add: udpClient_def IsTCP_def recvUDP_def connRead_def)

text \<open>
  Claim C5. When the exchange of a bulk-data request returns a response of at least 8
  bytes, its command code (bytes 0..2) decides the outcome: 1500 hands the response to
  \<open>recvLargeData\<close>; 2002 or 2000 makes the response bytes as received (packet header
  included, what the specification calls the unwrapped payload of the frame) the result;
  any other code is the unexpected-response error carrying that code.
\<close>

theorem commandData_dispatch:
  assumes "command z cmd data ''data'' = (Inr resp, z')" and "8 \<le> length resp"
  shows "commandData z cmd data =
           (let code = Uint16 (subslice resp 0 2) in
            if code = 1500 then recvLargeData z' resp
            else if code = 2002 \<or> code = 2000 then (Inr resp, z')
            else (Inl (UnexpectedResponse code), z'))"
  using assms by (simp add: commandData_def parsePacket_def Let_def)

theorem commandData_dispatch_witness:
  "commandData (udpClient [[0xD2, 0x07, 0, 0, 0, 0, 0, 0, 0x2A]]) 11 []
     = (Inr [0xD2, 0x07, 0, 0, 0, 0, 0, 0, 0x2A],
        (udpClient [])\<lparr>conn := Some \<lparr>now = 0, reads = [], writes = [],
                                   sent = [fst (createHeader 11 0 65534 [])]\<rparr>,
                         replyID := 0, lastData := [0xD2, 0x07, 0, 0, 0, 0, 0, 0, 0x2A]\<rparr>)
   \<and> fst (commandData (udpClient [[0x39, 0x05, 0, 0, 0, 0, 0, 0]]) 11 [])
     = Inl (UnexpectedResponse 1337)"
  using commandData_dispatch [OF udp_command_general, of "[0xD2, 0x07, 0, 0, 0, 0, 0, 0, 0x2A]" "[]" 11 "[]"]
    commandData_dispatch [OF udp_command_general, of "[0x39, 0x05, 0, 0, 0, 0, 0, 0]" "[]" 11 "[]"]
  by (simp add: subslice_def Uint16_def)

subsection \<open>What the chunk loop accumulates\<close>

text \<open>
  The bytes kept and the bytes counted for one chunk, by its position: the first chunk is
  kept whole and counted beyond its first 8 bytes; a later chunk longer than 8 bytes
  loses its first 8 bytes and is counted without them; a later chunk of at most 8 bytes
  is kept whole and counted in full. \<open>readChunks k\<close> receives \<open>k\<close> chunks in a row.
\<close>

fun keptBytes :: "bool \<Rightarrow> byte list \<Rightarrow> byte list" where
  "keptBytes True chunk = chunk"
| "keptBytes False chunk = (if length chunk > 8 then drop 8 chunk else chunk)"

fun countedBytes :: "bool \<Rightarrow> byte list \<Rightarrow> nat" where
  "countedBytes True chunk = length chunk - 8"
| "countedBytes False chunk = (if length chunk > 8 then length chunk - 8 else length chunk)"

fun assembled :: "bool \<Rightarrow> byte list list \<Rightarrow> byte list" where
  "assembled first [] = []"
| "assembled first (chunk # chunks) = keptBytes first chunk @ assembled False chunks"

fun counted :: "bool \<Rightarrow> byte list list \<Rightarrow> nat" where
  "counted first [] = 0"
| "counted first (chunk # chunks) = countedBytes first chunk + counted False chunks"

fun readChunks :: "nat \<Rightarrow> zkteco \<Rightarrow> (byte list list \<times> zkteco) option" where
  "readChunks 0 z = Some ([], z)"
| "readChunks (Suc k) z =
     (case readChunk z of
        (Inl err, z') \<Rightarrow> None
      | (Inr chunk, z') \<Rightarrow>
          (case readChunks k z' of
             None \<Rightarrow> None
           | Some (chunks, z'') \<Rightarrow> Some (chunk # chunks, z'')))"

lemma recvChunks_step:
  assumes "received < totalSize" "readChunk z = (Inr chunk, z')"
  shows "recvChunks z totalSize allData received first =
         recvChunks z' totalSize (allData @ keptBytes first chunk)
           (received + countedBytes first chunk) False"
  using assms by (subst recvChunks.simps) (cases first; simp)

lemma recvChunks_done:
  "\<not> received < totalSize \<Longrightarrow> recvChunks z totalSize allData received first = (Inr allData, z)"
  by (subst recvChunks.simps) simp

lemma recvChunks_run:
  "readChunks k z = Some (chunks, z') \<Longrightarrow>
   (\<forall>j<k. received + counted first (take j chunks) < totalSize) \<Longrightarrow>
   totalSize \<le> received + counted first chunks \<Longrightarrow>
   recvChunks z totalSize allData received first = (Inr (allData @ assembled first chunks), z')"
proof (induction k arbitrary: z chunks allData received first)
  case 0
  then show ?case by (simp add: recvChunks_done)
next
  case (Suc k)
  from Suc.prems(1) obtain chunk z1 rest where
    rc: "readChunk z = (Inr chunk, z1)" and rest: "readChunks k z1 = Some (rest, z')"
    and cs: "chunks = chunk # rest"
    by (auto split: prod.splits sum.splits option.splits)
  from Suc.prems(2) have lt: "received < totalSize" by (auto dest: spec [of _ 0])
  have pre: "\<forall>j<k. (received + countedBytes first chunk) + counted False (take j rest) < totalSize"
  proof (intro allI impI)
    fix j assume "j < k"
    then have "received + counted first (take (Suc j) chunks) < totalSize"
      using Suc.prems(2) by auto
    then show "(received + countedBytes first chunk) + counted False (take j rest) < totalSize"
      by (simp add: cs add.assoc)
  qed
  have fin: "totalSize \<le> (received + countedBytes first chunk) + counted False rest"
    using Suc.prems(3) by (simp add: cs add.assoc)
  show ?case
    using Suc.IH [OF rest pre fin, of "allData @ keptBytes first chunk"]
    by (simp add: recvChunks_step [OF lt rc] cs)
qed

lemma readChunks_length: "readChunks k z = Some (chunks, z') \<Longrightarrow> length chunks = k"
  by (induction k arbitrary: z chunks) (auto split: prod.splits sum.splits option.splits)

lemma counted_take_mono: "i \<le> j \<Longrightarrow> counted first (take i chunks) \<le> counted first (take j chunks)"
proof (induction chunks arbitrary: i j first)
  case Nil
  then show ?case by simp
next
  case (Cons c cs)
  show ?case
  proof (cases i)
    case 0
    then show ?thesis by simp
  next
    case (Suc i')
    with Cons.prems obtain j' where j: "j = Suc j'" "i' \<le> j'" by (cases j) auto
    with Suc Cons.IH [of i' j' False] show ?thesis by simp
  qed
qed

text \<open>
  Claim C4, as the code has it. Let the prepare response hold at least 12 bytes and
  advertise \<open>totalSize\<close> in bytes 8..12. If \<open>totalSize\<close> is zero the result is empty
  and nothing is received. If it is positive and the chunks that arrive are \<open>chunks\<close>,
  the count reaching \<open>totalSize\<close> with the last of them and not before, then the loop
  stops there, exactly one more frame is received, and the result is: the error of that
  receive, wrapped, if it fails; otherwise the first chunk whole followed by every
  later chunk, without its first 8 bytes when it is longer than 8 bytes and whole
  otherwise, with \<open>lastData\<close> set to that last frame.
\<close>

theorem recvLargeData_chunks:
  assumes long: "12 \<le> length prepareResp"
    and total: "totalSize = unat (Uint32 (subslice prepareResp 8 12))"
  shows "(totalSize = 0 \<longrightarrow> recvLargeData z prepareResp = (Inr [], z))
    \<and> (0 < totalSize \<and> readChunks k z = Some (chunks, z')
         \<and> counted True (butlast chunks) < totalSize \<and> totalSize \<le> counted True chunks
       \<longrightarrow> recvLargeData z prepareResp =
             (case recvData z' of
                (Inl err, z'') \<Rightarrow> (Inl (ReceiveFinalAck err), z'')
              | (Inr finalResp, z'') \<Rightarrow> (Inr (assembled True chunks), z''\<lparr>lastData := finalResp\<rparr>)))"
proof (intro conjI impI)
  assume "totalSize = 0"
  then show "recvLargeData z prepareResp = (Inr [], z)"
    using long total by (simp add: recvLargeData_def)
next
  assume a: "0 < totalSize \<and> readChunks k z = Some (chunks, z')
         \<and> counted True (butlast chunks) < totalSize \<and> totalSize \<le> counted True chunks"
  then have len: "length chunks = k" by (auto dest: readChunks_length)
  have "\<forall>j<k. 0 + counted True (take j chunks) < totalSize"
  proof (intro allI impI)
    fix j assume "j < k"
    then have "j \<le> k - 1" by simp
    then have "counted True (take j chunks) \<le> counted True (take (k - 1) chunks)"
      by (rule counted_take_mono)
    also have "take (k - 1) chunks = butlast chunks"
      using len by (simp add: butlast_conv_take)
    finally show "0 + counted True (take j chunks) < totalSize" using a by simp
  qed
  moreover have "totalSize \<le> 0 + counted True chunks" using a by simp
  ultimately have "recvChunks z totalSize [] 0 True = (Inr ([] @ assembled True chunks), z')"
    using a by (intro recvChunks_run) auto
  then show "recvLargeData z prepareResp =
             (case recvData z' of
                (Inl err, z'') \<Rightarrow> (Inl (ReceiveFinalAck err), z'')
              | (Inr finalResp, z'') \<Rightarrow> (Inr (assembled True chunks), z''\<lparr>lastData := finalResp\<rparr>))"
    using long total a by (simp add: recvLargeData_def split: prod.splits sum.splits)
qed

theorem recvLargeData_chunks_witness:
  "recvLargeData (udpClient []) [0xDC, 0x05, 0, 0, 0, 0, 0, 0, 0, 0, 0, 0] = (Inr [], udpClient [])
   \<and> recvLargeData
       (udpClient [[1, 2, 3, 4, 5, 6, 7, 8, 0xA1, 0xA2, 0xA3, 0xA4],
                   [9, 9, 9, 9, 9, 9, 9, 9, 0xB1, 0xB2, 0xB3, 0xB4, 0xB5, 0xB6],
                   [0xD0, 0x07, 0, 0, 0, 0, 0, 0]])
       [0xDC, 0x05, 0, 0, 0, 0, 0, 0, 10, 0, 0, 0]
     = (Inr [1, 2, 3, 4, 5, 6, 7, 8, 0xA1, 0xA2, 0xA3, 0xA4, 0xB1, 0xB2, 0xB3, 0xB4, 0xB5, 0xB6],
        (udpClient [])\<lparr>lastData := [0xD0, 0x07, 0, 0, 0, 0, 0, 0]\<rparr>)"
proof
  let ?empty = "[0xDC, 0x05, 0, 0, 0, 0, 0, 0, 0, 0, 0, 0] :: byte list"
  have "12 \<le> length ?empty" by simp
  moreover have "0 = unat (Uint32 (subslice ?empty 8 12))"
    by (simp add: Uint32_def subslice_def)
  ultimately show "recvLargeData (udpClient []) ?empty = (Inr [], udpClient [])"
    using recvLargeData_chunks [of ?empty 0 "udpClient []" 0 "[]" "udpClient []"] by blast
next
  let ?prep = "[0xDC, 0x05, 0, 0, 0, 0, 0, 0, 10, 0, 0, 0] :: byte list"
  let ?c1 = "[1, 2, 3, 4, 5, 6, 7, 8, 0xA1, 0xA2, 0xA3, 0xA4] :: byte list"
  let ?c2 = "[9, 9, 9, 9, 9, 9, 9, 9, 0xB1, 0xB2, 0xB3, 0xB4, 0xB5, 0xB6] :: byte list"
  let ?ack = "[0xD0, 0x07, 0, 0, 0, 0, 0, 0] :: byte list"
  have long: "12 \<le> length ?prep" by simp
  have total: "10 = unat (Uint32 (subslice ?prep 8 12))"
    by (simp add: Uint32_def subslice_def)
  have chunks: "readChunks (Suc (Suc 0)) (udpClient [?c1, ?c2, ?ack]) = Some ([?c1, ?c2], udpClient [?ack])"
    by (simp add: udp_readChunk)
  have counts: "(0 :: nat) < 10" "counted True (butlast [?c1, ?c2]) < 10"
    "10 \<le> counted True [?c1, ?c2]"
    by simp_all
  have "recvLargeData (udpClient [?c1, ?c2, ?ack]) ?prep =
      (case recvData (udpClient [?ack]) of
         (Inl err, z'') \<Rightarrow> (Inl (ReceiveFinalAck err), z'')
       | (Inr finalResp, z'') \<Rightarrow> (Inr (assembled True [?c1, ?c2]), z''\<lparr>lastData := finalResp\<rparr>))"
    using recvLargeData_chunks [OF long total, of "udpClient [?c1, ?c2, ?ack]" "Suc (Suc 0)"
        "[?c1, ?c2]" "udpClient [?ack]"] chunks counts by blast
  then show "recvLargeData (udpClient [?c1, ?c2, ?ack]) ?prep =
      (Inr [1, 2, 3, 4, 5, 6, 7, 8, 0xA1, 0xA2, 0xA3, 0xA4, 0xB1, 0xB2, 0xB3, 0xB4, 0xB5, 0xB6],
       (udpClient [])\<lparr>lastData := ?ack\<rparr>)"
    by (simp add: udp_recvData)
qed

text \<open>
  The claim as stated fails on a later chunk of at most 8 bytes: with 10 bytes advertised,
  a first chunk of 8 + 4 bytes and a second chunk of 6 bytes, the second chunk is appended
  whole and counted as 6 bytes (the transfer is then complete), not stripped of its
  leading bytes.
\<close>

theorem recvLargeData_short_chunk_counterexample:
  "let first = [1, 2, 3, 4, 5, 6, 7, 8, 0xA1, 0xA2, 0xA3, 0xA4];
       second = [0xB1, 0xB2, 0xB3, 0xB4, 0xB5, 0xB6];
       ack = [0xD0, 0x07, 0, 0, 0, 0, 0, 0];
       prepareResp = [0xDC, 0x05, 0, 0, 0, 0, 0, 0, 10, 0, 0, 0]
   in recvLargeData (udpClient [first, second, ack]) prepareResp
        = (Inr (first @ second), (udpClient [])\<lparr>lastData := ack\<rparr>)
      \<and> first @ second \<noteq> first @ drop 8 second"
  by (simp add: Let_def recvLargeData_def Uint32_def subslice_def
      recvChunks_step [OF _ udp_readChunk] recvChunks_done udp_recvData)

section \<open>The event stream\<close>

text \<open>
  \<open>GetRealTimeEvents(callback, eventMask, timeout)\<close>. The callback is a Go function
  value; the model records its invocations instead: \<open>handled\<close> lists, in order, the
  arguments \<open>(payload, eventType)\<close> of the \<open>decodeRealTimeEvent\<close> calls whose results
  are passed to the callback. The function returns the error (if any), that list and the
  client state. \<open>eventMask\<close> is a Go \<open>int\<close>, \<open>timeout\<close> a \<open>time.Duration\<close> in
  nanoseconds, \<open>time.Since(startTime)\<close> is the clock minus \<open>startTime\<close>. The read
  deadline computed in each turn (\<open>readTimeout\<close>) only feeds \<open>SetReadDeadline\<close>, which
  the scripted connection ignores.
\<close>

definition clock :: "zkteco \<Rightarrow> int" where
  "clock z = (case conn z of None \<Rightarrow> 0 | Some c \<Rightarrow> now c)"

definition isTimeout :: "error \<Rightarrow> bool" where
  "isTimeout err = (err = IOErr Timeout)"

text \<open>A received frame and a read that timed out both make progress: the loop of
  \<open>GetRealTimeEvents\<close> terminates on every finite script.\<close>

lemma recvUDP_progress:
  "recvUDP z = (r, z') \<Longrightarrow> (\<exists>p. r = Inr p) \<or> r = Inl (IOErr Timeout) \<Longrightarrow> (z', z) \<in> progress"
  by (auto simp: recvUDP_def progress_iff pendingReads_def
      dest: connRead_Inr_pending connRead_Timeout_pending
      split: option.splits prod.splits sum.splits)

lemma recvTCP_progress:
  "recvTCP z = (r, z') \<Longrightarrow> (\<exists>p. r = Inr p) \<or> r = Inl (IOErr Timeout) \<Longrightarrow> (z', z) \<in> progress"
proof (induction z arbitrary: r z' rule: recvTCP.induct)
  case (1 z)
  obtain p rem ok where ex: "extractTCPPacket (tcpBuffer z) = (p, rem, ok)"
    by (cases "extractTCPPacket (tcpBuffer z)") auto
  show ?case
  proof (cases ok)
    case True
    with ex "1.prems" have "z' = z\<lparr>tcpBuffer := rem\<rparr>"
      by (subst (asm) recvTCP.simps) auto
    moreover have "length rem < length (tcpBuffer z)"
      using ex True by (auto dest: extractTCPPacket_True)
    ultimately show ?thesis by (simp add: progress_iff pendingReads_def)
  next
    case False
    note nok = this
    show ?thesis
    proof (cases "conn z")
      case None
      with ex nok "1.prems" show ?thesis
        by (subst (asm) recvTCP.simps) auto
    next
      case (Some c)
      obtain rr c' where rd: "connRead 16384 c = (rr, c')" by (cases "connRead 16384 c") auto
      show ?thesis
      proof (cases rr)
        case (Inl e)
        with ex nok Some rd "1.prems" have "r = Inl (IOErr e)" "z' = z\<lparr>conn := Some c'\<rparr>"
          by (subst (asm) recvTCP.simps; auto)+
        with "1.prems"(2) have "e = Timeout" by auto
        with rd Inl have "length (reads c') < length (reads c)"
          by (auto dest: connRead_Timeout_pending)
        with Some \<open>z' = z\<lparr>conn := Some c'\<rparr>\<close> show ?thesis
          by (simp add: progress_iff pendingReads_def)
      next
        case (Inr bs)
        let ?znext = "z\<lparr>conn := Some c', tcpBuffer := tcpBuffer z @ bs\<rparr>"
        from ex nok Some rd Inr "1.prems"
        have "recvTCP ?znext = (r, z')"
          by (subst (asm) recvTCP.simps) auto
        from "1.IH" [OF ex [symmetric] refl _ Some rd [symmetric] Inr this "1.prems"(2)] nok
        have "(z', ?znext) \<in> progress" by simp
        then have "pendingReads z' \<le> pendingReads ?znext" by (auto simp: progress_iff)
        moreover have "pendingReads ?znext < pendingReads z"
          using connRead_Inr_pending [of 16384 c bs c'] rd Inr Some
          by (simp add: pendingReads_def)
        ultimately show ?thesis by (simp add: progress_iff)
      qed
    qed
  qed
qed

lemma recvFrame_progress:
  "(if IsTCP z then recvTCP z else recvUDP z) = (r, z') \<Longrightarrow>
   (\<exists>p. r = Inr p) \<or> r = Inl (IOErr Timeout) \<Longrightarrow> (z', z) \<in> progress"
  by (auto dest: recvTCP_progress recvUDP_progress split: if_splits)

function eventLoop ::
  "zkteco \<Rightarrow> goint \<Rightarrow> int \<Rightarrow> int \<Rightarrow> (byte list \<times> goint) list
   \<Rightarrow> error option \<times> (byte list \<times> goint) list \<times> zkteco" where
  "eventLoop z eventMask timeout startTime handled =
     (if timeout > 0 \<and> clock z - startTime \<ge> timeout then (None, handled, z)
      else
        (case (if IsTCP z then recvTCP z else recvUDP z) of
           (Inl err, z') \<Rightarrow>
             if isTimeout err then eventLoop z' eventMask timeout startTime handled
             else (Some (ReceiveEvent err), handled, z')
         | (Inr payload, z') \<Rightarrow>
             if length payload < 4 then eventLoop z' eventMask timeout startTime handled
             else
               let cmdID = Uint16 (subslice payload 0 2) in
               if cmdID \<noteq> CMD_REG_EVENT then eventLoop z' eventMask timeout startTime handled
               else if length payload < 6 then eventLoop z' eventMask timeout startTime handled
               else
                 let eventType = ucast (Uint16 (subslice payload 4 6)) in
                 if eventType AND eventMask = 0
                 then eventLoop z' eventMask timeout startTime handled
                 else eventLoop z' eventMask timeout startTime (handled @ [(payload, eventType)])))"
  by pat_completeness auto
termination
  by (relation "inv_image progress fst")
    (auto simp: wf_progress isTimeout_def dest: recvFrame_progress [OF sym])

declare eventLoop.simps [simp del]

definition GetRealTimeEvents ::
  "zkteco \<Rightarrow> goint \<Rightarrow> int \<Rightarrow> error option \<times> (byte list \<times> goint) list \<times> zkteco" where
  "GetRealTimeEvents z eventMask timeout =
     (let data = replicate 4 0;
          data = PutUint32 data 0 (ucast eventMask)
      in case command z CMD_REG_EVENT data ''general'' of
           (Inl err, z') \<Rightarrow> (Some (RegisterEvents err), [], z')
         | (Inr resp, z') \<Rightarrow>
             (case parsePacket resp of
                Inl err \<Rightarrow> (Some (ParseRegEvent err), [], z')
              | Inr pkt \<Rightarrow>
                  if Command pkt \<noteq> CMD_ACK_OK
                  then (Some (RegisterEventsResponse (Command pkt)), [], z')
                  else
                    let startTime = clock z' in
                    eventLoop z' eventMask timeout startTime []))"

text \<open>
  The condition of the specification for a frame to reach the handler: at least 6 bytes,
  the reg-event code in the leading 2 bytes, and an event type in bytes 4..6 that has a
  bit in common with the subscribed mask.
\<close>

definition reachesHandler :: "goint \<Rightarrow> byte list \<Rightarrow> bool" where
  "reachesHandler eventMask frame =
     (length frame \<ge> 6 \<and> Uint16 (take 2 frame) = 500
      \<and> ucast (Uint16 (take 2 (drop 4 frame))) AND eventMask \<noteq> 0)"

lemma subslice_take_drop:
  "subslice xs 0 2 = take 2 xs" "subslice xs 4 6 = take 2 (drop 4 xs)"
  by (simp_all add: subslice_def)

lemma eventLoop_step:
  "eventLoop z eventMask timeout startTime handled =
     (if timeout > 0 \<and> clock z - startTime \<ge> timeout then (None, handled, z)
      else
        (case (if IsTCP z then recvTCP z else recvUDP z) of
           (Inl err, z') \<Rightarrow>
             if isTimeout err then eventLoop z' eventMask timeout startTime handled
             else (Some (ReceiveEvent err), handled, z')
         | (Inr frame, z') \<Rightarrow>
             eventLoop z' eventMask timeout startTime
               (if reachesHandler eventMask frame
                then handled @ [(frame, ucast (Uint16 (take 2 (drop 4 frame))))]
                else handled)))"
  by (subst eventLoop.simps)
    (auto simp: reachesHandler_def subslice_take_drop Let_def split: prod.splits sum.splits)

lemma eventLoop_handled:
  assumes "\<forall>e\<in>set handled. Q e"
    and "\<And>frame. reachesHandler eventMask frame \<Longrightarrow> Q (frame, ucast (Uint16 (take 2 (drop 4 frame))))"
  shows "\<forall>e\<in>set (fst (snd (eventLoop z eventMask timeout startTime handled))). Q e"
  using assms(1)
proof (induction z arbitrary: handled rule: wf_induct_rule [OF wf_progress])
  case (1 z)
  show ?case
  proof (cases "timeout > 0 \<and> clock z - startTime \<ge> timeout")
    case True
    then show ?thesis using "1.prems" by (subst eventLoop_step) simp
  next
    case False
    obtain r z' where rf: "(if IsTCP z then recvTCP z else recvUDP z) = (r, z')"
      by (cases "if IsTCP z then recvTCP z else recvUDP z") auto
    show ?thesis
    proof (cases r)
      case (Inl err)
      show ?thesis
      proof (cases "isTimeout err")
        case True
        with Inl rf have "(z', z) \<in> progress"
          by (auto simp: isTimeout_def dest: recvFrame_progress)
        from "1.IH" [OF this "1.prems"] False rf Inl True show ?thesis
          by (subst eventLoop_step) auto
      next
        case nt: False
        with False rf Inl "1.prems" show ?thesis by (subst eventLoop_step) auto
      qed
    next
      case (Inr frame)
      with rf have pr: "(z', z) \<in> progress" by (auto dest: recvFrame_progress)
      let ?h = "if reachesHandler eventMask frame
                then handled @ [(frame, ucast (Uint16 (take 2 (drop 4 frame))))] else handled"
      have "\<forall>e\<in>set ?h. Q e" using "1.prems" assms(2) by auto
      from "1.IH" [OF pr this] False rf Inr show ?thesis
        by (subst eventLoop_step) auto
    qed
  qed
qed

lemma GetRealTimeEvents_handled:
  "\<forall>e\<in>set (fst (snd (GetRealTimeEvents z eventMask timeout))).
      reachesHandler eventMask (fst e) \<and> snd e = ucast (Uint16 (take 2 (drop 4 (fst e))))"
proof -
  have loop: "\<forall>e\<in>set (fst (snd (eventLoop z' eventMask timeout s []))).
      reachesHandler eventMask (fst e) \<and> snd e = ucast (Uint16 (take 2 (drop 4 (fst e))))" for z' s
    by (rule eventLoop_handled) simp_all
  show ?thesis
    unfolding GetRealTimeEvents_def Let_def
    using loop by (auto split: prod.splits sum.splits)
qed

text \<open>
  Claim C6. The handler is invoked only for frames of at least 6 bytes whose leading
  command field is the reg-event code 500 and whose event type (bytes 4..6) intersects the
  subscribed mask, and it is given that event type. Whenever the loop, its overall timeout
  not elapsed, receives a frame, it goes on polling from the state after the receive, the
  frame handed to the handler if it meets the three conditions and dropped otherwise.
\<close>

theorem realtime_event_filter:
  "(\<forall>e\<in>set (fst (snd (GetRealTimeEvents z eventMask timeout))).
      reachesHandler eventMask (fst e) \<and> snd e = ucast (Uint16 (take 2 (drop 4 (fst e)))))
   \<and> (\<not> (timeout > 0 \<and> clock zloop - startTime \<ge> timeout)
        \<and> (if IsTCP zloop then recvTCP zloop else recvUDP zloop) = (Inr frame, znext)
      \<longrightarrow> eventLoop zloop eventMask timeout startTime handled =
            eventLoop znext eventMask timeout startTime
              (if reachesHandler eventMask frame
               then handled @ [(frame, ucast (Uint16 (take 2 (drop 4 frame))))]
               else handled))"
proof (intro conjI impI)
  show "\<forall>e\<in>set (fst (snd (GetRealTimeEvents z eventMask timeout))).
      reachesHandler eventMask (fst e) \<and> snd e = ucast (Uint16 (take 2 (drop 4 (fst e))))"
    by (rule GetRealTimeEvents_handled)
next
  assume "\<not> (timeout > 0 \<and> clock zloop - startTime \<ge> timeout)
        \<and> (if IsTCP zloop then recvTCP zloop else recvUDP zloop) = (Inr frame, znext)"
  then show "eventLoop zloop eventMask timeout startTime handled =
            eventLoop znext eventMask timeout startTime
              (if reachesHandler eventMask frame
               then handled @ [(frame, ucast (Uint16 (take 2 (drop 4 frame))))]
               else handled)"
    by (subst eventLoop_step) auto
qed

theorem realtime_event_filter_witness:
  "fst (snd (GetRealTimeEvents
      (udpClient [[0xD0, 0x07, 0, 0, 0, 0, 0, 0],
                  [0xF4, 0x01, 0, 0, 1, 0, 0, 0],
                  [0xD0, 0x07, 0, 0, 1, 0, 0, 0],
                  [0xF4, 0x01, 0, 0, 2, 0, 0, 0],
                  [0xF4, 0x01, 0, 0, 1]]) 1 0))
     = [([0xF4, 0x01, 0, 0, 1, 0, 0, 0], 1)]
   \<and> reachesHandler 1 [0xF4, 0x01, 0, 0, 1, 0, 0, 0]
   \<and> \<not> reachesHandler 1 [0xD0, 0x07, 0, 0, 1, 0, 0, 0]
   \<and> \<not> reachesHandler 1 [0xF4, 0x01, 0, 0, 2, 0, 0, 0]
   \<and> \<not> reachesHandler 1 [0xF4, 0x01, 0, 0, 1]
   \<and> eventLoop (udpClient [[0xF4, 0x01, 0, 0, 2, 0, 0, 0]]) 1 0 0 []
       = eventLoop (udpClient []) 1 0 0 []"
proof -
  let ?ack = "[0xD0, 0x07, 0, 0, 0, 0, 0, 0] :: byte list"
  let ?f1 = "[0xF4, 0x01, 0, 0, 1, 0, 0, 0] :: byte list"
  let ?f2 = "[0xD0, 0x07, 0, 0, 1, 0, 0, 0] :: byte list"
  let ?f3 = "[0xF4, 0x01, 0, 0, 2, 0, 0, 0] :: byte list"
  let ?f4 = "[0xF4, 0x01, 0, 0, 1] :: byte list"
  have run: "fst (snd (GetRealTimeEvents (udpClient [?ack, ?f1, ?f2, ?f3, ?f4]) 1 0))
      = [(?f1, 1)]"
    apply (simp add: GetRealTimeEvents_def Let_def udp_command_general parsePacket_def
        subslice_def Uint16_def)
    apply (simp add: udpClient_def clock_def eventLoop.simps isTimeout_def IsTCP_def recvUDP_def
        connRead_def subslice_def Uint16_def)
    done
  have filt: "reachesHandler 1 ?f1" "\<not> reachesHandler 1 ?f2" "\<not> reachesHandler 1 ?f3"
    "\<not> reachesHandler 1 ?f4"
    by (simp_all add: reachesHandler_def Uint16_def)
  have "\<not> ((0 :: int) > 0 \<and> clock (udpClient [?f3]) - 0 \<ge> 0)
        \<and> (if IsTCP (udpClient [?f3]) then recvTCP (udpClient [?f3]) else recvUDP (udpClient [?f3]))
          = (Inr ?f3, udpClient [])"
    by (simp add: udp_recvFrame)
  with realtime_event_filter [where zloop = "udpClient [?f3]" and eventMask = 1 and timeout = 0
      and startTime = 0 and frame = ?f3 and znext = "udpClient []" and handled = "[]"] filt
  have "eventLoop (udpClient [?f3]) 1 0 0 [] = eventLoop (udpClient []) 1 0 0 []"
    by simp
  with run filt show ?thesis by simp
qed

end
